theory Spec2Isabelle
  imports Complex_Main "HOL-Library.Word" "HOL-Library.Stream"
begin

section \<open>The Gaussian-linear-uniform benchmark of BayesFlow\<close>

text \<open>
  The module \<^verbatim>\<open>bayesflow/benchmarks/gaussian_linear_uniform.py\<close> has three functions:
  \<^verbatim>\<open>prior\<close>, \<^verbatim>\<open>observation_model\<close> and \<^verbatim>\<open>simulator\<close>. They call four operations of NumPy:
  \<^verbatim>\<open>np.random.default_rng\<close>, \<^verbatim>\<open>Generator.uniform\<close>, \<^verbatim>\<open>Generator.normal\<close> and
  \<^verbatim>\<open>np.transpose\<close>. NumPy is a library outside the repository; its operations are
  embedded here as NumPy documents and implements them, at the level the three
  functions use them.

  Conventions of the embedding:
  \<^item> a double is a \<^typ>\<open>real\<close> with a significand of 53 bits; the arithmetic of
    \<^verbatim>\<open>Generator.uniform\<close> rounds each result to the nearest double, as the machine does,
    and a width \<open>high - low\<close> beyond the largest double is the overflow that NumPy refuses;
    infinities and NaN as values are not modelled; the normal variates and the arithmetic
    of \<^verbatim>\<open>Generator.normal\<close> are over the reals;
  \<^item> an array is its shape and its elements in row-major (C) order;
  \<^item> arrays are objects of a store, named by references, since the Python functions
    pass and return references;
  \<^item> a random generator is a state of an arbitrary type \<open>'g\<close>; the bit generator's
    step functions are a parameter of every operation;
  \<^item> the entropy of the operating system, from which \<^verbatim>\<open>default_rng()\<close> seeds a new
    generator, is an explicit stream of generator states in the world;
  \<^item> a Python exception is a value of type \<open>error\<close>.
\<close>

subsection \<open>Arrays\<close>

datatype error = IndexError | ValueError | OverflowError

record ndarray =
  shape :: "nat list"
  data :: "real list"

definition wf_array :: "ndarray \<Rightarrow> bool" where
  "wf_array a \<longleftrightarrow> length (data a) = prod_list (shape a)"

text \<open>The offset of a multi-index in row-major order, and the multi-index of an offset.\<close>

fun ravel :: "nat list \<Rightarrow> nat list \<Rightarrow> nat" where
  "ravel (n # ns) (i # js) = i * prod_list ns + ravel ns js"
| "ravel _ _ = 0"

fun unravel :: "nat list \<Rightarrow> nat \<Rightarrow> nat list" where
  "unravel [] p = []"
| "unravel (n # ns) p = (p div prod_list ns) # unravel ns (p mod prod_list ns)"

text \<open>\<^verbatim>\<open>a[i, j, ...]\<close> with a full multi-index of non-negative entries.\<close>

definition item :: "ndarray \<Rightarrow> nat list \<Rightarrow> error + real" where
  "item a idx =
     (if length idx = length (shape a) \<and> list_all2 (\<lambda>i n. i < n) idx (shape a)
      then Inr (data a ! ravel (shape a) idx)
      else Inl IndexError)"

text \<open>\<^verbatim>\<open>a.shape[n]\<close>: indexing the shape tuple raises IndexError out of range.\<close>

definition shape_at :: "ndarray \<Rightarrow> nat \<Rightarrow> error + nat" where
  "shape_at a n = (if n < length (shape a) then Inr (shape a ! n) else Inl IndexError)"

text \<open>
  Broadcasting an array to an output shape: shapes are aligned at their last axis; an
  axis of the array must equal the output's axis or be 1, and an axis of length 1 is
  repeated along the output's axis.
\<close>

definition broadcastable :: "nat list \<Rightarrow> nat list \<Rightarrow> bool" where
  "broadcastable s out \<longleftrightarrow>
     length s \<le> length out \<and>
     list_all2 (\<lambda>n m. n = m \<or> n = 1) s (drop (length out - length s) out)"

definition broadcast_index :: "nat list \<Rightarrow> nat list \<Rightarrow> nat list \<Rightarrow> nat list" where
  "broadcast_index s out idx =
     map2 (\<lambda>n i. if n = 1 then 0 else i) s (drop (length out - length s) idx)"

definition broadcast_to :: "ndarray \<Rightarrow> nat list \<Rightarrow> real list option" where
  "broadcast_to a out =
     (if broadcastable (shape a) out
      then Some (map (\<lambda>p. data a ! ravel (shape a) (broadcast_index (shape a) out (unravel out p)))
                   [0..<prod_list out])
      else None)"

text \<open>
  \<^verbatim>\<open>np.transpose(a, axes)\<close>: axis \<open>m\<close> of the result is axis \<open>axes[m]\<close> of \<open>a\<close>, so the element
  at \<open>idx\<close> of the result is the element of \<open>a\<close> whose index has \<open>idx[m]\<close> at position
  \<open>axes[m]\<close>. The axes must be a permutation of the array's axes.
\<close>

fun index_of :: "nat \<Rightarrow> nat list \<Rightarrow> nat" where
  "index_of b [] = 0"
| "index_of b (a # as) = (if a = b then 0 else Suc (index_of b as))"

definition transpose_index :: "nat list \<Rightarrow> nat list \<Rightarrow> nat list" where
  "transpose_index axes idx = map (\<lambda>b. idx ! index_of b axes) [0..<length axes]"

definition np_transpose :: "ndarray \<Rightarrow> nat list \<Rightarrow> error + ndarray" where
  "np_transpose a axes =
     (if sort axes \<noteq> [0..<length (shape a)] then Inl ValueError
      else let out = map (\<lambda>ax. shape a ! ax) axes in
        Inr \<lparr>shape = out,
             data = map (\<lambda>p. data a ! ravel (shape a) (transpose_index axes (unravel out p)))
                      [0..<prod_list out]\<rparr>)"

subsection \<open>Double arithmetic\<close>

text \<open>
  A finite double is \<open>0\<close> or a real number \<open>n \<sqdot> 2\<^sup>k\<close> with an integer \<open>n\<close> of at most 53 bits
  and an exponent \<open>k\<close> of at least \<open>-1074\<close>. An operation on doubles yields the exact result
  rounded to the nearest double, a tie going to the double with the even significand.

  \<open>round_even\<close> rounds a real to the nearest integer, a tie going to the even one;
  \<open>binade x\<close> is the exponent \<open>e\<close> with \<open>2\<^sup>e \<le> |x| < 2\<^sup>e\<^sup>+\<^sup>1\<close>; \<open>quantum x\<close> is the exponent of the
  unit in the last place of the doubles around \<open>x\<close>: 52 below the binade, and \<open>-1074\<close> where
  the underflow is gradual; \<open>round_double\<close> rounds \<open>x\<close> to the nearest multiple of that unit.
\<close>

definition round_even :: "real \<Rightarrow> int" where
  "round_even t =
     (let n = \<lfloor>t\<rfloor>; d = t - of_int n
      in if d < 1 / 2 then n else if 1 / 2 < d then n + 1 else if even n then n else n + 1)"

definition binade :: "real \<Rightarrow> int" where
  "binade x = \<lfloor>log 2 \<bar>x\<bar>\<rfloor>"

definition quantum :: "real \<Rightarrow> int" where
  "quantum x = max (binade x - 52) (- 1074)"

definition round_double :: "real \<Rightarrow> real" where
  "round_double x =
     (if x = 0 then 0 else of_int (round_even (x / 2 powi quantum x)) * 2 powi quantum x)"

text \<open>
  The largest double, \<open>(2\<^sup>5\<^sup>3 - 1) \<sqdot> 2\<^sup>9\<^sup>7\<^sup>1\<close>. A result that is rounded beyond it overflows to
  an infinity. A (finite) double is a real that rounding leaves as it is, within this
  range.
\<close>

definition max_double :: real where
  "max_double = (2 ^ 53 - 1) * 2 ^ 971"

definition is_double :: "real \<Rightarrow> bool" where
  "is_double x \<longleftrightarrow> round_double x = x \<and> \<bar>x\<bar> \<le> max_double"

subsection \<open>Random generators\<close>

text \<open>
  A bit generator yields 64-bit words. \<^verbatim>\<open>next_double\<close> is NumPy's: the upper 53 bits of
  a word, scaled by \<open>2\<^sup>-\<^sup>5\<^sup>3\<close>, which is a double without rounding. \<^verbatim>\<open>random_uniform\<close> is
  NumPy's \<^verbatim>\<open>off + width * next_double\<close>, the product and the sum each rounded. The sampler
  of standard normal variates (NumPy's ziggurat) is taken as it is: a step on the
  generator's state.
\<close>

record 'g bitgen =
  next_uint64 :: "'g \<Rightarrow> 64 word \<times> 'g"
  standard_normal :: "'g \<Rightarrow> real \<times> 'g"

definition next_double :: "'g bitgen \<Rightarrow> 'g \<Rightarrow> real \<times> 'g" where
  "next_double B g =
     (let (u, g') = next_uint64 B g in (real (unat (drop_bit 11 u)) / 2 ^ 53, g'))"

definition random_uniform :: "'g bitgen \<Rightarrow> real \<Rightarrow> real \<Rightarrow> 'g \<Rightarrow> real \<times> 'g" where
  "random_uniform B off width g =
     (let (u, g') = next_double B g in (round_double (off + round_double (width * u)), g'))"

definition random_normal :: "'g bitgen \<Rightarrow> real \<Rightarrow> real \<Rightarrow> 'g \<Rightarrow> real \<times> 'g" where
  "random_normal B loc scale g = (let (z, g') = standard_normal B g in (loc + scale * z, g'))"

text \<open>
  The loop that fills an output array: one call of the sampler per element, in
  row-major order, each with the element's own parameter, all on the same generator.
\<close>

fun cont_fill :: "('p \<Rightarrow> 'g \<Rightarrow> real \<times> 'g) \<Rightarrow> 'p list \<Rightarrow> 'g \<Rightarrow> real list \<times> 'g" where
  "cont_fill f [] g = ([], g)"
| "cont_fill f (a # as) g =
     (let (x, g') = f a g; (xs, g'') = cont_fill f as g' in (x # xs, g''))"

text \<open>
  \<^verbatim>\<open>rng.uniform(low, high, size)\<close> with scalar bounds and an integer size. NumPy computes
  the width \<open>high - low\<close> once, as a double. It refuses a width that is not finite with
  OverflowError, and then a negative width and a negative size with ValueError.
\<close>

definition uniform :: "'g bitgen \<Rightarrow> 'g \<Rightarrow> real \<Rightarrow> real \<Rightarrow> int \<Rightarrow> error + (ndarray \<times> 'g)" where
  "uniform B g low high sz =
     (let width = round_double (high - low) in
      if max_double < \<bar>width\<bar> then Inl OverflowError
      else if width < 0 \<or> sz < 0 then Inl ValueError
      else let (xs, g') = cont_fill (\<lambda>a. random_uniform B a width) (replicate (nat sz) low) g
           in Inr (\<lparr>shape = [nat sz], data = xs\<rparr>, g'))"

text \<open>
  \<^verbatim>\<open>rng.normal(loc, scale, size)\<close> with an array \<open>loc\<close>, a scalar \<open>scale\<close> and an optional
  size tuple. NumPy refuses a negative scale, a negative dimension and a \<open>loc\<close> that does
  not broadcast to the size, each with ValueError. Without a size the output has the
  shape of \<open>loc\<close>.
\<close>

definition normal ::
  "'g bitgen \<Rightarrow> 'g \<Rightarrow> ndarray \<Rightarrow> real \<Rightarrow> int list option \<Rightarrow> error + (ndarray \<times> 'g)" where
  "normal B g loc scale sz =
     (if scale < 0 then Inl ValueError
      else case sz of
        None \<Rightarrow>
          let (xs, g') = cont_fill (\<lambda>a. random_normal B a scale) (data loc) g
          in Inr (\<lparr>shape = shape loc, data = xs\<rparr>, g')
      | Some dims \<Rightarrow>
          if list_ex (\<lambda>n. n < 0) dims then Inl ValueError
          else (case broadcast_to loc (map nat dims) of
                  None \<Rightarrow> Inl ValueError
                | Some locs \<Rightarrow>
                    let (xs, g') = cont_fill (\<lambda>a. random_normal B a scale) locs g
                    in Inr (\<lparr>shape = map nat dims, data = xs\<rparr>, g')))"

subsection \<open>The world: the store of arrays and the entropy of the system\<close>

record 'g world =
  arrays :: "nat \<Rightarrow> ndarray"
  next_ref :: nat
  entropy :: "'g stream"

text \<open>A new array object gets the next free reference; no other object changes.\<close>

definition alloc :: "ndarray \<Rightarrow> 'g world \<Rightarrow> nat \<times> 'g world" where
  "alloc a w = (next_ref w, w\<lparr>arrays := (arrays w)(next_ref w := a), next_ref := Suc (next_ref w)\<rparr>)"

text \<open>\<^verbatim>\<open>np.random.default_rng()\<close>: a new generator, seeded from the system's entropy.\<close>

definition default_rng :: "'g world \<Rightarrow> 'g \<times> 'g world" where
  "default_rng w = (shd (entropy w), w\<lparr>entropy := stl (entropy w)\<rparr>)"

text \<open>
  The first statement of \<^verbatim>\<open>prior\<close> and of \<^verbatim>\<open>observation_model\<close>:
  \<^verbatim>\<open>if rng is None: rng = np.random.default_rng()\<close>.
\<close>

definition rng_or_default :: "'g option \<Rightarrow> 'g world \<Rightarrow> 'g \<times> 'g world" where
  "rng_or_default rng w = (case rng of None \<Rightarrow> default_rng w | Some g \<Rightarrow> (g, w))"

subsection \<open>The three functions of the module\<close>

text \<open>
  Each function takes the bit generator's step functions, its Python arguments (an
  absent \<^verbatim>\<open>rng\<close> or \<^verbatim>\<open>n_obs\<close> is \<open>None\<close>) and the world. It returns an exception, or the
  reference of its result, the final state of the generator it drew from, and the new
  world.
\<close>

definition prior ::
  "'g bitgen \<Rightarrow> int \<Rightarrow> real \<Rightarrow> real \<Rightarrow> 'g option \<Rightarrow> 'g world \<Rightarrow> error + (nat \<times> 'g \<times> 'g world)" where
  "prior B D lower_bound upper_bound rng w =
     (let (g, w1) = rng_or_default rng w in
      case uniform B g lower_bound upper_bound D of
        Inl e \<Rightarrow> Inl e
      | Inr (a, g') \<Rightarrow> let (r, w2) = alloc a w1 in Inr (r, g', w2))"

definition observation_model ::
  "'g bitgen \<Rightarrow> nat \<Rightarrow> int option \<Rightarrow> real \<Rightarrow> 'g option \<Rightarrow> 'g world \<Rightarrow> error + (nat \<times> 'g \<times> 'g world)" where
  "observation_model B params n_obs scale rng w =
     (let (g, w1) = rng_or_default rng w in
      case n_obs of
        None \<Rightarrow>
          (case normal B g (arrays w1 params) scale None of
             Inl e \<Rightarrow> Inl e
           | Inr (a, g') \<Rightarrow> let (r, w2) = alloc a w1 in Inr (r, g', w2))
      | Some k \<Rightarrow>
          (case shape_at (arrays w1 params) 0 of
             Inl e \<Rightarrow> Inl e
           | Inr s0 \<Rightarrow>
          (case shape_at (arrays w1 params) 1 of
             Inl e \<Rightarrow> Inl e
           | Inr s1 \<Rightarrow>
          (case normal B g (arrays w1 params) scale (Some [k, int s0, int s1]) of
             Inl e \<Rightarrow> Inl e
           | Inr (a, g') \<Rightarrow>
               let (x, w2) = alloc a w1 in
               (case np_transpose (arrays w2 x) [1, 0, 2] of
                  Inl e \<Rightarrow> Inl e
                | Inr t \<Rightarrow> let (r, w3) = alloc t w2 in Inr (r, g', w3))))))"

text \<open>
  \<^verbatim>\<open>simulator()\<close> calls both with their defaults: \<open>D = 10\<close>, bounds \<open>-1\<close> and \<open>1\<close>, no
  \<^verbatim>\<open>n_obs\<close>, scale \<open>0.1\<close>, no generator. The dictionary maps a field name to a reference.
\<close>

definition simulator :: "'g bitgen \<Rightarrow> 'g world \<Rightarrow> error + ((string \<rightharpoonup> nat) \<times> 'g world)" where
  "simulator B w =
     (case prior B 10 (- 1) 1 None w of
        Inl e \<Rightarrow> Inl e
      | Inr (prior_draws, g1, w1) \<Rightarrow>
          (case observation_model B prior_draws None (1 / 10) None w1 of
             Inl e \<Rightarrow> Inl e
           | Inr (observables, g2, w2) \<Rightarrow>
               Inr ([''parameters'' \<mapsto> prior_draws, ''observables'' \<mapsto> observables], w2)))"

subsection \<open>Notions the properties are stated with\<close>

text \<open>
  The state of a generator after \<open>n\<close> draws of a sampler, and the \<open>n\<close>-th standard normal
  variate (counted from 0) that a generator in state \<open>g\<close> yields.
\<close>

definition advance :: "('g \<Rightarrow> real \<times> 'g) \<Rightarrow> nat \<Rightarrow> 'g \<Rightarrow> 'g" where
  "advance f n g = ((\<lambda>s. snd (f s)) ^^ n) g"

definition nth_normal :: "'g bitgen \<Rightarrow> 'g \<Rightarrow> nat \<Rightarrow> real" where
  "nth_normal B g n = fst (standard_normal B (advance (standard_normal B) n g))"

text \<open>
  What a caller sees of a result: the array behind the returned reference with the final
  state of the generator, and the arrays behind the fields of the returned dictionary.
\<close>

definition array_result :: "error + (nat \<times> 'g \<times> 'g world) \<Rightarrow> error + (ndarray \<times> 'g)" where
  "array_result res = (case res of Inl e \<Rightarrow> Inl e | Inr (r, g, w) \<Rightarrow> Inr (arrays w r, g))"

definition record_result ::
  "error + ((string \<rightharpoonup> nat) \<times> 'g world) \<Rightarrow> error + (string \<rightharpoonup> ndarray)" where
  "record_result res =
     (case res of Inl e \<Rightarrow> Inl e | Inr (d, w) \<Rightarrow> Inr (\<lambda>k. map_option (arrays w) (d k)))"

subsection \<open>A concrete generator and a concrete world\<close>

text \<open>
  The theorems below hold for every bit generator and every world. They are instantiated
  on a generator whose state is a counter of its draws (the \<open>n\<close>-th word has \<open>n\<close> in its
  upper 53 bits, the \<open>n\<close>-th normal variate is \<open>n\<close>), and on a world that holds a
  \<open>2 \<times> 2\<close> batch, a vector of length 2 and a \<open>1 \<times> 2\<close> batch.
\<close>

definition counter_bitgen :: "nat bitgen" where
  "counter_bitgen =
     \<lparr>next_uint64 = (\<lambda>g. (push_bit 11 (word_of_nat g), Suc g)),
      standard_normal = (\<lambda>g. (real g, Suc g))\<rparr>"

definition demo_world :: "nat world" where
  "demo_world =
     \<lparr>arrays = (\<lambda>_. \<lparr>shape = [], data = [0]\<rparr>)
                 (0 := \<lparr>shape = [2, 2], data = [10, 20, 30, 40]\<rparr>,
                  1 := \<lparr>shape = [2], data = [1, 2]\<rparr>,
                  2 := \<lparr>shape = [1, 2], data = [1, 2]\<rparr>),
      next_ref = 3,
      entropy = siterate (\<lambda>n. n + 100) 7\<rparr>"

text \<open>
  A second world for the two-run properties: other arrays behind other references, another
  next reference, and an entropy that agrees with the first world's on the first two
  generators only.
\<close>

definition other_world :: "nat world" where
  "other_world =
     \<lparr>arrays = (\<lambda>_. \<lparr>shape = [2, 2], data = [10, 20, 30, 40]\<rparr>),
      next_ref = 9,
      entropy = 7 ## 107 ## sconst 0\<rparr>"

section \<open>Properties\<close>

subsection \<open>Auxiliary facts\<close>

lemma advance_0: "advance f 0 g = g"
  by (simp add: advance_def)

text \<open>
  Rounding to a double: rounding to the nearest integer errs by at most a half, is
  monotone and odd; rounding to a double is odd and monotone, leaves a double as it is
  and, from \<open>2\<^sup>-\<^sup>1\<^sup>0\<^sup>2\<^sup>2\<close> on, errs by at most \<open>2\<^sup>-\<^sup>5\<^sup>3\<close> of the value.
\<close>

lemma round_even_error: "\<bar>of_int (round_even t) - t\<bar> \<le> 1 / 2"
  unfolding round_even_def Let_def by (auto simp: abs_le_iff)

lemma round_even_of_int: "round_even (of_int n) = n"
  by (simp add: round_even_def)

lemma round_even_mono:
  assumes "t \<le> t'"
  shows "round_even t \<le> round_even t'"
proof -
  have le: "\<lfloor>t\<rfloor> \<le> \<lfloor>t'\<rfloor>" using assms by (rule floor_mono)
  show ?thesis
  proof (cases "\<lfloor>t\<rfloor> = \<lfloor>t'\<rfloor>")
    case True
    then show ?thesis using assms unfolding round_even_def Let_def by auto
  next
    case False
    with le have "\<lfloor>t\<rfloor> + 1 \<le> \<lfloor>t'\<rfloor>" by simp
    moreover have "round_even t \<le> \<lfloor>t\<rfloor> + 1" unfolding round_even_def Let_def by auto
    moreover have "\<lfloor>t'\<rfloor> \<le> round_even t'" unfolding round_even_def Let_def by auto
    ultimately show ?thesis by linarith
  qed
qed

lemma round_even_uminus: "round_even (- t) = - round_even t"
proof (cases "t = of_int \<lfloor>t\<rfloor>")
  case True
  then obtain n where "t = of_int n" ..
  then show ?thesis
    by (metis of_int_minus round_even_of_int)
next
  case False
  then have fl: "\<lfloor>- t\<rfloor> = - \<lfloor>t\<rfloor> - 1"
    by (metis ceiling_altdef ceiling_def add_diff_cancel_right' minus_diff_eq minus_minus
        uminus_add_conv_diff)
  show ?thesis
    unfolding round_even_def Let_def fl by (auto simp: field_simps)
qed

lemma round_even_ge: "of_int m \<le> t \<Longrightarrow> m \<le> round_even t"
  using round_even_mono [of "of_int m" t] by (simp add: round_even_of_int)

lemma round_even_le: "t \<le> of_int m \<Longrightarrow> round_even t \<le> m"
  using round_even_mono [of t "of_int m"] by (simp add: round_even_of_int)

lemma binade_bounds:
  assumes "x \<noteq> 0"
  shows "2 powi binade x \<le> \<bar>x\<bar>" and "\<bar>x\<bar> < 2 powi (binade x + 1)"
proof -
  have pos: "0 < \<bar>x\<bar>" using assms by simp
  have p1: "2 powr real_of_int (binade x) = 2 powi binade x"
    by (rule powr_real_of_int') simp_all
  have p2: "2 powr (real_of_int (binade x) + 1) = 2 powi (binade x + 1)"
    using powr_real_of_int' [of 2 "binade x + 1"] by (simp add: add.commute)
  have "2 powr real_of_int (binade x) \<le> \<bar>x\<bar> \<and> \<bar>x\<bar> < 2 powr (real_of_int (binade x) + 1)"
    using floor_log_eq_powr_iff [OF pos, of 2 "binade x"] by (simp add: binade_def)
  then show "2 powi binade x \<le> \<bar>x\<bar>" and "\<bar>x\<bar> < 2 powi (binade x + 1)"
    unfolding p1 p2 by simp_all
qed

lemma binade_unique:
  assumes "2 powi e \<le> \<bar>x\<bar>" and "\<bar>x\<bar> < 2 powi (e + 1)"
  shows "binade x = e"
proof -
  have "0 < (2 :: real) powi e" by simp
  with assms(1) have pos: "0 < \<bar>x\<bar>" by linarith
  have p1: "2 powr real_of_int e = 2 powi e"
    by (rule powr_real_of_int') simp_all
  have p2: "2 powr (real_of_int e + 1) = 2 powi (e + 1)"
    using powr_real_of_int' [of 2 "e + 1"] by (simp add: add.commute)
  have "2 powr real_of_int e \<le> \<bar>x\<bar> \<and> \<bar>x\<bar> < 2 powr (real_of_int e + 1)"
    unfolding p1 p2 using assms by simp
  then show ?thesis
    using floor_log_eq_powr_iff [OF pos, of 2 e] by (simp add: binade_def)
qed

lemma binade_uminus: "binade (- x) = binade x"
  by (simp add: binade_def)

lemma binade_mono:
  assumes "0 < x" and "x \<le> y"
  shows "binade x \<le> binade y"
  unfolding binade_def using assms by (intro floor_mono) simp

lemma binade_less:
  assumes "x \<noteq> 0" and "\<bar>x\<bar> < 2 powi e"
  shows "binade x < e"
proof (rule ccontr)
  assume "\<not> binade x < e"
  then have "e \<le> binade x" by simp
  then have "(2 :: real) powi e \<le> 2 powi binade x" by (intro power_int_increasing) simp_all
  with binade_bounds(1) [OF assms(1)] assms(2) show False by linarith
qed

lemma binade_ge:
  assumes "2 powi e \<le> \<bar>x\<bar>"
  shows "e \<le> binade x"
proof (rule ccontr)
  assume "\<not> e \<le> binade x"
  then have "binade x + 1 \<le> e" by simp
  then have "(2 :: real) powi (binade x + 1) \<le> 2 powi e" by (intro power_int_increasing) simp_all
  moreover have "x \<noteq> 0"
  proof
    assume "x = 0"
    with assms have "(2 :: real) powi e \<le> 0" by simp
    moreover have "0 < (2 :: real) powi e" by simp
    ultimately show False by linarith
  qed
  ultimately show False using binade_bounds(2) [of x] assms by linarith
qed

lemma quantum_uminus: "quantum (- x) = quantum x"
  by (simp add: quantum_def binade_uminus)

lemma quantum_ge: "- 1074 \<le> quantum x"
  by (simp add: quantum_def)

lemma quantum_normal: "- 1022 \<le> binade x \<Longrightarrow> quantum x = binade x - 52"
  by (simp add: quantum_def)

lemma round_double_0: "round_double 0 = 0"
  by (simp add: round_double_def)

lemma round_double_uminus: "round_double (- x) = - round_double x"
  by (simp add: round_double_def quantum_uminus round_even_uminus)

lemma round_double_pos_eq:
  "0 < x \<Longrightarrow> round_double x = of_int (round_even (x / 2 powi quantum x)) * 2 powi quantum x"
  by (simp add: round_double_def)

text \<open>Rounding does not cross a multiple of the unit in the last place.\<close>

lemma round_double_le_grid:
  assumes "0 < x" and "x \<le> of_int m * 2 powi quantum x"
  shows "round_double x \<le> of_int m * 2 powi quantum x"
proof -
  have q: "0 < (2 :: real) powi quantum x" by simp
  have "x / 2 powi quantum x \<le> of_int m" using assms(2) q by (simp add: pos_divide_le_eq)
  then have "round_even (x / 2 powi quantum x) \<le> m" by (rule round_even_le)
  then have "(of_int (round_even (x / 2 powi quantum x)) :: real) \<le> of_int m" by simp
  then show ?thesis
    unfolding round_double_pos_eq [OF assms(1)] using q by (intro mult_right_mono) simp_all
qed

lemma round_double_ge_grid:
  assumes "0 < x" and "of_int m * 2 powi quantum x \<le> x"
  shows "of_int m * 2 powi quantum x \<le> round_double x"
proof -
  have q: "0 < (2 :: real) powi quantum x" by simp
  have "of_int m \<le> x / 2 powi quantum x" using assms(2) q by (simp add: pos_le_divide_eq)
  then have "m \<le> round_even (x / 2 powi quantum x)" by (rule round_even_ge)
  then have "(of_int m :: real) \<le> of_int (round_even (x / 2 powi quantum x))" by simp
  then show ?thesis
    unfolding round_double_pos_eq [OF assms(1)] using q by (intro mult_right_mono) simp_all
qed

lemma round_double_nonneg: "0 \<le> x \<Longrightarrow> 0 \<le> round_double x"
proof (cases "x = 0")
  case True
  then show ?thesis by (simp add: round_double_0)
next
  case False
  assume "0 \<le> x"
  with False have x: "0 < x" by simp
  have "of_int 0 * 2 powi quantum x \<le> x" using x by simp
  from round_double_ge_grid [OF x this] show ?thesis by simp
qed

text \<open>A power of two at or above the unit in the last place is a multiple of the unit.\<close>

lemma power_int_grid:
  assumes "k \<le> e"
  shows "(2 :: real) powi e = of_int (2 ^ nat (e - k)) * 2 powi k"
proof -
  have "(2 :: real) powi e = 2 powi (e - k) * 2 powi k"
    using power_int_add [of "2 :: real" "e - k" k] by simp
  also have "(2 :: real) powi (e - k) = 2 ^ nat (e - k)"
    using assms by (simp add: power_int_nonneg_exp)
  finally show ?thesis by simp
qed

lemma round_double_upper:
  assumes "0 < x" and "x \<le> 2 powi e" and "quantum x \<le> e"
  shows "round_double x \<le> 2 powi e"
  using round_double_le_grid [OF assms(1), of "2 ^ nat (e - quantum x)"] assms(2)
  unfolding power_int_grid [OF assms(3), symmetric] by simp

lemma round_double_lower:
  assumes "0 < x" and "2 powi e \<le> x" and "quantum x \<le> e"
  shows "2 powi e \<le> round_double x"
  using round_double_ge_grid [OF assms(1), of "2 ^ nat (e - quantum x)"] assms(2)
  unfolding power_int_grid [OF assms(3), symmetric] by simp

lemma round_double_normal_lower:
  assumes "0 < x" and "- 1022 \<le> binade x"
  shows "2 powi binade x \<le> round_double x"
proof -
  have "2 powi binade x \<le> x" using binade_bounds(1) [of x] assms(1) by simp
  moreover have "quantum x \<le> binade x" using assms(2) by (simp add: quantum_def)
  ultimately show ?thesis using assms(1) by (intro round_double_lower)
qed

lemma round_double_error:
  assumes "0 < x" and "- 1022 \<le> binade x"
  shows "\<bar>round_double x - x\<bar> \<le> x / 2 ^ 53"
proof -
  define q :: real where "q = 2 powi quantum x"
  define t where "t = x / q"
  have q: "0 < q" by (simp add: q_def)
  have x: "x = t * q" using q by (simp add: t_def)
  have qn: "quantum x = binade x - 52" using assms(2) by (rule quantum_normal)
  have "(2 :: real) powi binade x = 2 ^ 52 * 2 powi (binade x - 52)"
    using power_int_add [of "2 :: real" 52 "binade x - 52"] by simp
  moreover have "2 powi binade x \<le> x" using binade_bounds(1) [of x] assms(1) by simp
  ultimately have "2 ^ 52 * q \<le> x" by (simp add: q_def qn)
  then have t: "2 ^ 52 \<le> t" using q by (simp add: t_def pos_le_divide_eq)
  have rd: "round_double x = of_int (round_even t) * q"
    unfolding t_def q_def by (rule round_double_pos_eq [OF assms(1)])
  have "round_double x - x = of_int (round_even t) * q - t * q"
    using rd x by simp
  then have "round_double x - x = (of_int (round_even t) - t) * q"
    by (simp add: algebra_simps)
  then have "\<bar>round_double x - x\<bar> = \<bar>of_int (round_even t) - t\<bar> * q"
    using q by (simp add: abs_mult)
  also have "\<dots> \<le> 1 / 2 * q"
    using round_even_error [of t] q by (intro mult_right_mono) simp_all
  also have "\<dots> \<le> t / 2 ^ 53 * q"
  proof -
    have "(1 :: real) / 2 \<le> t / 2 ^ 53" using t by simp
    then show ?thesis using q by (intro mult_right_mono) simp_all
  qed
  also have "\<dots> = x / 2 ^ 53" using x by simp
  finally show ?thesis .
qed

text \<open>The doubles are fixed points of the rounding.\<close>

lemma round_double_normal_grid:
  assumes "2 ^ 52 \<le> n" and "n < 2 ^ 53" and "- 1074 \<le> k"
  shows "round_double (of_int n * 2 powi k) = of_int n * 2 powi k"
proof -
  define x :: real where "x = of_int n * 2 powi k"
  have n1: "(2 :: real) ^ 52 \<le> of_int n"
    using assms(1) by (metis of_int_le_iff of_int_numeral of_int_power)
  have n2: "of_int n < (2 :: real) ^ 53"
    using assms(2) by (metis of_int_less_iff of_int_numeral of_int_power)
  have k: "0 < (2 :: real) powi k" by simp
  have pos: "0 < x" unfolding x_def using n1 k by (intro mult_pos_pos) simp_all
  have e1: "(2 :: real) powi (k + 52) = 2 ^ 52 * 2 powi k"
    using power_int_add [of "2 :: real" 52 k] by (simp add: add.commute)
  have e2: "(2 :: real) powi (k + 52 + 1) = 2 ^ 53 * 2 powi k"
    using power_int_add [of "2 :: real" 53 k] by (simp add: add.commute)
  have ax: "\<bar>x\<bar> = of_int n * 2 powi k" using pos by (simp add: x_def)
  have "2 powi (k + 52) \<le> \<bar>x\<bar>"
    unfolding e1 ax using n1 k by (intro mult_right_mono) simp_all
  moreover have "\<bar>x\<bar> < 2 powi (k + 52 + 1)"
    unfolding e2 ax using n2 k by (intro mult_strict_right_mono) simp_all
  ultimately have b: "binade x = k + 52" by (rule binade_unique)
  have qk: "quantum x = k" using assms(3) by (simp add: quantum_def b)
  have "x / 2 powi quantum x = of_int n" unfolding qk by (simp add: x_def)
  then have "round_double x = of_int n * 2 powi k"
    unfolding round_double_pos_eq [OF pos] by (simp add: round_even_of_int qk)
  then show ?thesis by (simp only: x_def)
qed

lemma round_double_subnormal_grid:
  assumes "0 < n" and "n < 2 ^ 52"
  shows "round_double (of_int n * 2 powi (- 1074)) = of_int n * 2 powi (- 1074)"
proof -
  define x :: real where "x = of_int n * 2 powi (- 1074)"
  have n1: "(0 :: real) < of_int n" using assms(1) by simp
  have n2: "of_int n < (2 :: real) ^ 52"
    using assms(2) by (metis of_int_less_iff of_int_numeral of_int_power)
  have k: "0 < (2 :: real) powi (- 1074)" by simp
  have pos: "0 < x" unfolding x_def using n1 k by (intro mult_pos_pos)
  have e: "(2 :: real) powi (- 1022) = 2 ^ 52 * 2 powi (- 1074)"
    using power_int_add [of "2 :: real" 52 "- 1074"] by simp
  have "x < 2 powi (- 1022)"
    unfolding e x_def using n2 k by (intro mult_strict_right_mono)
  then have "binade x < - 1022" using pos by (intro binade_less) simp_all
  then have qk: "quantum x = - 1074" by (simp add: quantum_def)
  have "x / 2 powi quantum x = of_int n" unfolding qk by (simp add: x_def)
  then have "round_double x = of_int n * 2 powi (- 1074)"
    unfolding round_double_pos_eq [OF pos] by (simp add: round_even_of_int qk)
  then show ?thesis by (simp only: x_def)
qed

text \<open>What the rounding of a positive number yields.\<close>

lemma round_double_pos_form:
  assumes "0 < x"
  shows "\<exists>n. 0 \<le> n \<and> n \<le> 2 ^ 53 \<and> round_double x = of_int n * 2 powi quantum x \<and>
             (2 ^ 52 \<le> n \<or> quantum x = - 1074)"
proof -
  define q :: real where "q = 2 powi quantum x"
  define t where "t = x / q"
  define n where "n = round_even t"
  have q: "0 < q" by (simp add: q_def)
  have rd: "round_double x = of_int n * 2 powi quantum x"
    unfolding n_def t_def q_def by (rule round_double_pos_eq [OF assms])
  have "of_int 0 \<le> t" using assms q by (simp add: t_def)
  then have n0: "0 \<le> n" unfolding n_def by (rule round_even_ge)
  have x1: "x < 2 powi (binade x + 1)" using binade_bounds(2) [of x] assms by simp
  have "binade x + 1 \<le> quantum x + 53" by (simp add: quantum_def)
  then have "(2 :: real) powi (binade x + 1) \<le> 2 powi (quantum x + 53)"
    by (intro power_int_increasing) simp_all
  also have "\<dots> = 2 ^ 53 * q"
    using power_int_add [of "2 :: real" 53 "quantum x"] by (simp add: q_def add.commute)
  finally have "x \<le> 2 ^ 53 * q" using x1 by simp
  then have "t \<le> of_int (2 ^ 53)" using q by (simp add: t_def pos_divide_le_eq)
  then have n1: "n \<le> 2 ^ 53" unfolding n_def by (rule round_even_le)
  have n2: "2 ^ 52 \<le> n \<or> quantum x = - 1074"
  proof (cases "quantum x = - 1074")
    case True
    then show ?thesis by simp
  next
    case False
    then have qn: "quantum x = binade x - 52" by (simp add: quantum_def max_def split: if_splits)
    have "(2 :: real) powi binade x = 2 ^ 52 * 2 powi (binade x - 52)"
      using power_int_add [of "2 :: real" 52 "binade x - 52"] by simp
    moreover have "2 powi binade x \<le> x" using binade_bounds(1) [of x] assms by simp
    ultimately have "2 ^ 52 * q \<le> x" by (simp add: q_def qn)
    then have "of_int (2 ^ 52) \<le> t" using q by (simp add: t_def pos_le_divide_eq)
    then have "2 ^ 52 \<le> n" unfolding n_def by (rule round_even_ge)
    then show ?thesis by simp
  qed
  from n0 n1 rd n2 show ?thesis by blast
qed

lemma round_double_idem: "round_double (round_double x) = round_double x"
proof -
  have pos: "round_double (round_double y) = round_double y" if y: "0 < y" for y
  proof -
    obtain n where n0: "0 \<le> n" and n1: "n \<le> 2 ^ 53"
      and rd: "round_double y = of_int n * 2 powi quantum y"
      and n2: "2 ^ 52 \<le> n \<or> quantum y = - 1074"
      using round_double_pos_form [OF y] by blast
    consider "n = 0" | "n = 2 ^ 53" | "2 ^ 52 \<le> n" "n < 2 ^ 53" | "0 < n" "n < 2 ^ 52"
      using n0 n1 by linarith
    then show ?thesis
    proof cases
      case 1
      then show ?thesis unfolding rd by (simp add: round_double_0)
    next
      case 2
      have "(of_int (2 ^ 53) :: real) * 2 powi quantum y = of_int (2 ^ 52) * 2 powi (quantum y + 1)"
        using power_int_add [of "2 :: real" 1 "quantum y"] by (simp add: add.commute)
      then have rd': "round_double y = of_int (2 ^ 52) * 2 powi (quantum y + 1)"
        unfolding rd 2 by simp
      show ?thesis
        unfolding rd' using quantum_ge [of y] by (intro round_double_normal_grid) simp_all
    next
      case 3
      show ?thesis
        unfolding rd using 3 quantum_ge [of y] by (intro round_double_normal_grid)
    next
      case 4
      with n2 have q: "quantum y = - 1074" by simp
      show ?thesis
        unfolding rd q using 4 by (intro round_double_subnormal_grid)
    qed
  qed
  consider "x = 0" | "0 < x" | "x < 0" by linarith
  then show ?thesis
  proof cases
    case 1
    then show ?thesis by (simp add: round_double_0)
  next
    case 2
    then show ?thesis by (rule pos)
  next
    case 3
    then have "0 < - x" by simp
    from pos [OF this] show ?thesis by (simp add: round_double_uminus)
  qed
qed

lemma round_double_mono:
  assumes "x \<le> y"
  shows "round_double x \<le> round_double y"
proof -
  have pos: "round_double a \<le> round_double b" if a: "0 < a" and ab: "a \<le> b" for a b
  proof -
    have b: "0 < b" using a ab by simp
    have le: "binade a \<le> binade b" using a ab by (rule binade_mono)
    then have qle: "quantum a \<le> quantum b" by (simp add: quantum_def)
    show ?thesis
    proof (cases "quantum a = quantum b")
      case True
      let ?q = "(2 :: real) powi quantum b"
      have q: "0 < ?q" by simp
      have "a / ?q \<le> b / ?q" using ab q by (simp add: divide_right_mono)
      then have "round_even (a / ?q) \<le> round_even (b / ?q)" by (rule round_even_mono)
      then have "(of_int (round_even (a / ?q)) :: real) \<le> of_int (round_even (b / ?q))" by simp
      then show ?thesis
        unfolding round_double_pos_eq [OF a] round_double_pos_eq [OF b] True
        using q by (intro mult_right_mono) simp_all
    next
      case False
      with qle have lt: "quantum a < quantum b" by simp
      then have qb: "quantum b = binade b - 52" and nb: "- 1022 \<le> binade b"
        using quantum_ge [of a] by (simp_all add: quantum_def max_def split: if_splits)
      have "binade a \<noteq> binade b" using False by (auto simp: quantum_def)
      with le have "binade a + 1 \<le> binade b" by simp
      then have "(2 :: real) powi (binade a + 1) \<le> 2 powi binade b"
        by (intro power_int_increasing) simp_all
      moreover have "a < 2 powi (binade a + 1)" using binade_bounds(2) [of a] a by simp
      ultimately have "a \<le> 2 powi binade b" by simp
      moreover have "quantum a \<le> binade b" using lt qb by simp
      ultimately have "round_double a \<le> 2 powi binade b" using a by (intro round_double_upper)
      with round_double_normal_lower [OF b nb] show ?thesis by linarith
    qed
  qed
  consider "0 < x" | "x \<le> 0" "0 \<le> y" | "y < 0" using assms by linarith
  then show ?thesis
  proof cases
    case 1
    then show ?thesis using assms by (rule pos)
  next
    case 2
    have "0 \<le> round_double (- x)" using 2 by (intro round_double_nonneg) simp
    then have "round_double x \<le> 0" by (simp add: round_double_uminus)
    moreover have "0 \<le> round_double y" using 2 by (intro round_double_nonneg)
    ultimately show ?thesis by linarith
  next
    case 3
    then have "0 < - y" and "- y \<le> - x" using assms by simp_all
    from pos [OF this] show ?thesis by (simp add: round_double_uminus)
  qed
qed

text \<open>
  Every double is a multiple of the smallest subnormal, and so is the difference of two doubles;
  below \<open>2 powi (- 1021)\<close> every such multiple is a double, so that a difference of two doubles
  that small is computed exactly.
\<close>

lemma double_on_grid:
  assumes "round_double v = v"
  shows "\<exists>m. v = of_int m * 2 powi (- 1074)"
proof -
  have pos: "\<exists>m. round_double y = of_int m * 2 powi (- 1074)" if y: "0 < y" for y
  proof -
    obtain n where rd: "round_double y = of_int n * 2 powi quantum y"
      using round_double_pos_form [OF y] by blast
    have "(2 :: real) powi quantum y = of_int (2 ^ nat (quantum y - (- 1074))) * 2 powi (- 1074)"
      using quantum_ge [of y] by (intro power_int_grid)
    then have "round_double y = of_int (n * 2 ^ nat (quantum y - (- 1074))) * 2 powi (- 1074)"
      unfolding rd by simp
    then show ?thesis by (rule exI)
  qed
  consider "v = 0" | "0 < v" | "v < 0" by linarith
  then show ?thesis
  proof cases
    case 1
    then have "v = of_int 0 * 2 powi (- 1074)" by simp
    then show ?thesis by (rule exI)
  next
    case 2
    from pos [OF this] show ?thesis unfolding assms .
  next
    case 3
    then have "0 < - v" by simp
    from pos [OF this] obtain m where "- v = of_int m * 2 powi (- 1074)"
      unfolding round_double_uminus assms by blast
    then have "v = of_int (- m) * 2 powi (- 1074)" by simp
    then show ?thesis by (rule exI)
  qed
qed

lemma round_double_small_grid:
  assumes "0 < m" and "of_int m * 2 powi (- 1074) < (2 :: real) powi (- 1021)"
  shows "round_double (of_int m * 2 powi (- 1074)) = of_int m * 2 powi (- 1074)"
proof -
  have e: "(2 :: real) powi (- 1021) = 2 ^ 53 * 2 powi (- 1074)"
    using power_int_add [of "2 :: real" 53 "- 1074"] by simp
  have "(of_int m :: real) * 2 powi (- 1074) < of_int (2 ^ 53) * 2 powi (- 1074)"
    using assms(2) unfolding e by simp
  then have "(of_int m :: real) < of_int (2 ^ 53)"
    by (rule mult_right_less_imp_less) simp
  then have m: "m < 2 ^ 53" by (simp only: of_int_less_iff)
  show ?thesis
  proof (cases "m < 2 ^ 52")
    case True
    with assms(1) show ?thesis by (intro round_double_subnormal_grid)
  next
    case False
    then have "2 ^ 52 \<le> m" by simp
    then show ?thesis using m by (intro round_double_normal_grid) simp_all
  qed
qed

lemma round_double_small_difference:
  assumes lo: "round_double lo = lo" and hi: "round_double hi = hi"
    and lh: "lo < hi" and small: "hi - lo < 2 powi (- 1021)"
  shows "round_double (hi - lo) = hi - lo"
proof -
  obtain a where a: "lo = of_int a * 2 powi (- 1074)" using double_on_grid [OF lo] by blast
  obtain b where b: "hi = of_int b * 2 powi (- 1074)" using double_on_grid [OF hi] by blast
  have d: "hi - lo = of_int (b - a) * 2 powi (- 1074)"
    unfolding a b by (simp add: algebra_simps)
  have "0 < (of_int (b - a) :: real) * 2 powi (- 1074)" using lh unfolding d [symmetric] by simp
  then have "0 < (of_int (b - a) :: real)" by (simp add: zero_less_mult_iff)
  then have m: "0 < b - a" by (simp only: of_int_0_less_iff)
  show ?thesis
    unfolding d using m small [unfolded d] by (rule round_double_small_grid)
qed

text \<open>
  The sharp bound of \<open>Generator.uniform\<close>: for doubles \<open>lo < hi\<close> and a unit variate \<open>u\<close>
  below one by at least \<open>1 / 2 ^ 53\<close>, the computed \<open>lo + (hi - lo) * u\<close>, each operation rounded,
  lies between \<open>lo\<close> and \<open>hi\<close>, both included.
\<close>

lemma rounded_affine_bounds:
  assumes lo: "round_double lo = lo" and hi: "round_double hi = hi"
    and lh: "lo < hi" and u0: "0 \<le> u" and u1: "u \<le> 1 - 1 / 2 ^ 53"
  shows "lo \<le> round_double (lo + round_double (round_double (hi - lo) * u))"
    and "round_double (lo + round_double (round_double (hi - lo) * u)) \<le> hi"
proof -
  define c :: real where "c = 1 / 2 ^ 53"
  define x where "x = hi - lo"
  define r where "r = round_double x"
  define y where "y = r * u"
  define s where "s = round_double y"
  have c: "0 < c" "c < 1" by (simp_all add: c_def)
  have u1': "u \<le> 1 - c" using u1 by (simp add: c_def)
  have ule: "u \<le> 1" using u1' c by simp
  have x: "0 < x" using lh by (simp add: x_def)
  have r0: "0 \<le> r" unfolding r_def using x by (intro round_double_nonneg) simp
  have y0: "0 \<le> y" unfolding y_def using r0 u0 by simp
  have yr: "y \<le> r * (1 - c)" unfolding y_def using r0 u1' by (simp add: mult_left_mono)
  have s0: "0 \<le> s" unfolding s_def using y0 by (rule round_double_nonneg)
  have "round_double lo \<le> round_double (lo + s)" using s0 by (intro round_double_mono) simp
  then show "lo \<le> round_double (lo + round_double (round_double (hi - lo) * u))"
    unfolding lo s_def y_def r_def x_def .
  have sx: "s \<le> x"
  proof (cases "x < 2 powi (- 1021)")
    case True
    have rx: "r = x"
      unfolding r_def x_def using lo hi lh True [unfolded x_def]
      by (rule round_double_small_difference)
    have "y \<le> x * 1" unfolding y_def rx using x ule by (intro mult_left_mono) simp_all
    then have "round_double y \<le> round_double x" by (intro round_double_mono) simp
    then show ?thesis unfolding s_def using rx by (simp add: r_def)
  next
    case False
    then have big: "2 powi (- 1021) \<le> x" by simp
    have "- 1021 \<le> binade x" using big x by (intro binade_ge) simp_all
    then have nx: "- 1022 \<le> binade x" by simp
    have "2 powi binade x \<le> r" unfolding r_def using x nx by (rule round_double_normal_lower)
    moreover have "(0 :: real) < 2 powi binade x" by simp
    ultimately have r: "0 < r" by linarith
    show ?thesis
    proof (rule ccontr)
      assume "\<not> s \<le> x"
      then have xs: "x < s" by simp
      show False
      proof (cases "y \<le> x")
        case True
        have "s \<le> r" unfolding s_def r_def using True by (rule round_double_mono)
        moreover have "r \<le> s"
        proof -
          have "round_double x \<le> round_double s" using xs by (intro round_double_mono) simp
          then show ?thesis unfolding r_def s_def round_double_idem .
        qed
        ultimately have sr: "s = r" by simp
        have "y \<noteq> 0" using sr r by (auto simp: s_def round_double_0)
        with y0 have y: "0 < y" by simp
        show False
        proof (cases "- 1022 \<le> binade y")
          case True
          have "\<bar>s - y\<bar> \<le> y * c"
            unfolding s_def c_def using round_double_error [OF y True] by simp
          then have "r - y \<le> y * c" unfolding sr by simp
          moreover have "r * c \<le> r - y" using yr by (simp add: algebra_simps)
          moreover have "y * c < r * c"
          proof -
            have "r * (1 - c) < r * 1" using r c by (intro mult_strict_left_mono) simp_all
            with yr have "y < r" by simp
            then show ?thesis using c by simp
          qed
          ultimately show False by linarith
        next
          case False
          then have "binade y + 1 \<le> - 1022" by simp
          then have "(2 :: real) powi (binade y + 1) \<le> 2 powi (- 1022)"
            by (intro power_int_increasing) simp_all
          moreover have "y < 2 powi (binade y + 1)" using binade_bounds(2) [of y] y by simp
          ultimately have "y \<le> 2 powi (- 1022)" by simp
          moreover have "quantum y \<le> - 1022" using False by (simp add: quantum_def)
          ultimately have "s \<le> 2 powi (- 1022)"
            unfolding s_def using y by (intro round_double_upper)
          moreover have "(2 :: real) powi (- 1022) \<le> 2 powi (- 1021)"
            by (intro power_int_increasing) simp_all
          ultimately show False using big xs by linarith
        qed
      next
        case False
        then have xy: "x < y" by simp
        have "\<bar>r - x\<bar> \<le> x * c"
          unfolding r_def c_def using round_double_error [OF x nx] by simp
        then have "r \<le> x * (1 + c)" by (simp add: algebra_simps)
        then have "r * (1 - c) \<le> x * (1 + c) * (1 - c)"
          using c by (intro mult_right_mono) simp_all
        also have "\<dots> = x - x * (c * c)" by (simp add: algebra_simps)
        also have "\<dots> < x" using x c by simp
        finally have "r * (1 - c) < x" .
        with yr xy show False by linarith
      qed
    qed
  qed
  have "round_double (lo + s) \<le> round_double hi"
    using sx by (intro round_double_mono) (simp add: x_def)
  then show "round_double (lo + round_double (round_double (hi - lo) * u)) \<le> hi"
    unfolding hi s_def y_def r_def x_def .
qed

text \<open>
  A compiler may fuse the product and the sum into one operation with a single rounding.
  The bounds are the same then; and where the product is exact, as with the width \<open>1\<close>, so is
  the result.
\<close>

lemma fused_affine_bounds:
  assumes lo: "round_double lo = lo" and hi: "round_double hi = hi"
    and lh: "lo < hi" and u0: "0 \<le> u" and u1: "u \<le> 1 - 1 / 2 ^ 53"
  shows "lo \<le> round_double (lo + round_double (hi - lo) * u)"
    and "round_double (lo + round_double (hi - lo) * u) \<le> hi"
proof -
  define c :: real where "c = 1 / 2 ^ 53"
  define x where "x = hi - lo"
  define r where "r = round_double x"
  define y where "y = r * u"
  have c: "0 < c" "c < 1" by (simp_all add: c_def)
  have u1': "u \<le> 1 - c" using u1 by (simp add: c_def)
  have ule: "u \<le> 1" using u1' c by simp
  have x: "0 < x" using lh by (simp add: x_def)
  have r0: "0 \<le> r" unfolding r_def using x by (intro round_double_nonneg) simp
  have y0: "0 \<le> y" unfolding y_def using r0 u0 by simp
  have yr: "y \<le> r * (1 - c)" unfolding y_def using r0 u1' by (simp add: mult_left_mono)
  have "round_double lo \<le> round_double (lo + y)" using y0 by (intro round_double_mono) simp
  then show "lo \<le> round_double (lo + round_double (hi - lo) * u)"
    unfolding lo y_def r_def x_def .
  have yx: "y \<le> x"
  proof (cases "x < 2 powi (- 1021)")
    case True
    have rx: "r = x"
      unfolding r_def x_def using lo hi lh True [unfolded x_def]
      by (rule round_double_small_difference)
    have "y \<le> x * 1" unfolding y_def rx using x ule by (intro mult_left_mono) simp_all
    then show ?thesis by simp
  next
    case False
    then have big: "2 powi (- 1021) \<le> x" by simp
    have "- 1021 \<le> binade x" using big x by (intro binade_ge) simp_all
    then have nx: "- 1022 \<le> binade x" by simp
    have "\<bar>r - x\<bar> \<le> x * c"
      unfolding r_def c_def using round_double_error [OF x nx] by simp
    then have "r \<le> x * (1 + c)" by (simp add: algebra_simps)
    then have "r * (1 - c) \<le> x * (1 + c) * (1 - c)"
      using c by (intro mult_right_mono) simp_all
    also have "\<dots> = x - x * (c * c)" by (simp add: algebra_simps)
    also have "\<dots> < x" using x c by simp
    finally have "r * (1 - c) < x" .
    with yr show ?thesis by linarith
  qed
  have "round_double (lo + y) \<le> round_double hi"
    using yx by (intro round_double_mono) (simp add: x_def)
  then show "round_double (lo + round_double (hi - lo) * u) \<le> hi"
    unfolding hi y_def r_def x_def .
qed

text \<open>Some doubles, and a sum that is rounded up to the next power of two.\<close>

lemma round_double_1: "round_double 1 = 1"
  using round_double_normal_grid [of "2 ^ 52" "- 52"] by simp

lemma round_double_2: "round_double 2 = 2"
  using round_double_normal_grid [of "2 ^ 52" "- 51"] by simp

lemma round_double_below_1: "round_double (9007199254740991 / 2 ^ 53) = 9007199254740991 / 2 ^ 53"
  using round_double_normal_grid [of 9007199254740991 "- 53"] by simp

lemma round_double_below_2: "round_double (1 + 9007199254740991 / 2 ^ 53) = 2"
proof -
  define x :: real where "x = 1 + 9007199254740991 / 2 ^ 53"
  have pos: "0 < x" by (simp add: x_def)
  have "2 powi 0 \<le> \<bar>x\<bar>" and "\<bar>x\<bar> < 2 powi (0 + 1)" by (simp_all add: x_def)
  then have b: "binade x = 0" by (rule binade_unique)
  have q: "quantum x = - 52" by (simp add: quantum_def b)
  have t: "x / 2 powi (- 52) = 18014398509481983 / 2" by (simp add: x_def)
  have "round_even (18014398509481983 / 2) = 9007199254740992"
    by (simp add: round_even_def)
  then have "round_double x = 2"
    unfolding round_double_pos_eq [OF pos] q t by simp
  then show ?thesis by (simp only: x_def)
qed


lemma advance_Suc: "advance f (Suc n) g = advance f n (snd (f g))"
  by (simp only: advance_def funpow_Suc_right o_apply)

lemma cont_fill_Cons_fst:
  "fst (cont_fill f (a # as) g) = fst (f a g) # fst (cont_fill f as (snd (f a g)))"
  by (simp add: case_prod_beta)

lemma cont_fill_Cons_snd:
  "snd (cont_fill f (a # as) g) = snd (cont_fill f as (snd (f a g)))"
  by (simp add: case_prod_beta)

lemma random_normal_fst: "fst (random_normal B a s g) = a + s * fst (standard_normal B g)"
  by (simp add: random_normal_def case_prod_beta)

lemma random_normal_snd: "snd (random_normal B a s g) = snd (standard_normal B g)"
  by (simp add: random_normal_def case_prod_beta)

lemma random_uniform_fst:
  "fst (random_uniform B a s g) = round_double (a + round_double (s * fst (next_double B g)))"
  by (simp add: random_uniform_def case_prod_beta)

lemma cont_fill_length: "length (fst (cont_fill f ps g)) = length ps"
  by (induction ps arbitrary: g) (simp_all add: cont_fill_Cons_fst del: cont_fill.simps(2))

lemma cont_fill_normal_state:
  "snd (cont_fill (\<lambda>a. random_normal B a s) ps g) = advance (standard_normal B) (length ps) g"
proof (induction ps arbitrary: g)
  case Nil
  show ?case by (simp add: advance_0)
next
  case (Cons a ps)
  show ?case
    using Cons.IH [of "snd (standard_normal B g)"]
    by (simp add: advance_Suc cont_fill_Cons_snd random_normal_snd del: cont_fill.simps(2))
qed

lemma cont_fill_normal_nth:
  "p < length ps \<Longrightarrow>
   fst (cont_fill (\<lambda>a. random_normal B a s) ps g) ! p = ps ! p + s * nth_normal B g p"
proof (induction ps arbitrary: g p)
  case Nil
  then show ?case by simp
next
  case (Cons a ps)
  show ?case
  proof (cases p)
    case 0
    then show ?thesis
      by (simp add: nth_normal_def advance_0 cont_fill_Cons_fst random_normal_fst del: cont_fill.simps(2))
  next
    case (Suc q)
    with Cons.prems have "q < length ps" by simp
    from Cons.IH [OF this, of "snd (standard_normal B g)"] Suc show ?thesis
      by (simp add: nth_normal_def advance_Suc cont_fill_Cons_fst random_normal_fst random_normal_snd del: cont_fill.simps(2))
  qed
qed

lemma next_double_bounds:
  "0 \<le> fst (next_double B g) \<and> fst (next_double B g) \<le> 1 - 1 / 2 ^ 53"
proof -
  define u where "u = fst (next_uint64 B g)"
  define n where "n = unat (drop_bit 11 u)"
  have "unat u < 2 ^ 64" using unsigned_less [of u] by simp
  then have "unat u div 2 ^ 11 < 2 ^ 53" by (simp add: less_mult_imp_div_less)
  then have "n < 2 ^ 53" by (simp add: n_def drop_bit_eq_div unat_div)
  then have "n + 1 \<le> 2 ^ 53" by simp
  then have "real (n + 1) \<le> real (2 ^ 53)" by (simp only: of_nat_le_iff)
  then have le: "real n / 2 ^ 53 \<le> 1 - 1 / 2 ^ 53" by (simp add: field_simps)
  have ge: "0 \<le> real n / 2 ^ 53" by simp
  have "fst (next_double B g) = real n / 2 ^ 53"
    by (simp add: next_double_def case_prod_beta n_def u_def)
  with le ge show ?thesis by simp
qed

lemma random_uniform_bounds:
  assumes "round_double lo = lo" and "round_double hi = hi" and "lo < hi"
  shows "lo \<le> fst (random_uniform B lo (round_double (hi - lo)) g) \<and>
         fst (random_uniform B lo (round_double (hi - lo)) g) \<le> hi"
proof -
  let ?u = "fst (next_double B g)"
  have u: "0 \<le> ?u" "?u \<le> 1 - 1 / 2 ^ 53" using next_double_bounds [of B g] by simp_all
  show ?thesis
    unfolding random_uniform_fst
    using rounded_affine_bounds [OF assms u] by (intro conjI)
qed

lemma cont_fill_uniform_bounds:
  assumes "round_double lo = lo" and "round_double hi = hi" and "lo < hi"
  shows "x \<in> set (fst (cont_fill (\<lambda>a. random_uniform B a (round_double (hi - lo)))
                          (replicate n lo) g)) \<Longrightarrow>
         lo \<le> x \<and> x \<le> hi"
proof (induction n arbitrary: g)
  case 0
  then show ?case by simp
next
  case (Suc n)
  let ?w = "round_double (hi - lo)"
  obtain y g' where y: "random_uniform B lo ?w g = (y, g')" by (cases "random_uniform B lo ?w g")
  from Suc.prems y have "x = y \<or> x \<in> set (fst (cont_fill (\<lambda>a. random_uniform B a ?w) (replicate n lo) g'))"
    by (auto simp add: cont_fill_Cons_fst simp del: cont_fill.simps(2))
  then show ?case
  proof
    assume "x = y"
    with random_uniform_bounds [OF assms, of B g] y show ?thesis by simp
  next
    assume "x \<in> set (fst (cont_fill (\<lambda>a. random_uniform B a ?w) (replicate n lo) g'))"
    then show ?thesis by (rule Suc.IH)
  qed
qed

lemma ravel_less:
  "list_all2 (\<lambda>i n. i < n) idx ns \<Longrightarrow> ravel ns idx < prod_list ns"
proof (induction rule: list_all2_induct)
  case Nil
  show ?case by simp
next
  case (Cons i idx n ns)
  have "i * prod_list ns + ravel ns idx < i * prod_list ns + prod_list ns"
    using Cons.IH by simp
  also have "\<dots> = Suc i * prod_list ns" by simp
  also have "\<dots> \<le> n * prod_list ns"
    using Cons.hyps(1) by (intro mult_le_mono1) simp
  finally show ?case by simp
qed

lemma unravel_ravel:
  "list_all2 (\<lambda>i n. i < n) idx ns \<Longrightarrow> unravel ns (ravel ns idx) = idx"
proof (induction rule: list_all2_induct)
  case Nil
  show ?case by simp
next
  case (Cons i idx n ns)
  have r: "ravel ns idx < prod_list ns" using Cons.hyps(2) by (rule ravel_less)
  then show ?case using Cons.IH by simp
qed

lemma upt_3: "[0..<3] = [0, 1, 2 :: nat]"
  by code_simp

lemma np_transpose_102:
  assumes "shape a = [k, N, D]"
  shows "\<exists>t. np_transpose a [1, 0, 2] = Inr t \<and> shape t = [N, k, D] \<and>
           (\<forall>i<N. \<forall>j<k. \<forall>d<D. item t [i, j, d] = item a [j, i, d])"
proof -
  define t where "t = \<lparr>shape = [N, k, D],
     data = map (\<lambda>p. data a ! ravel (shape a) (transpose_index [1, 0, 2] (unravel [N, k, D] p)))
              [0..<prod_list [N, k, D]]\<rparr>"
  have eq: "np_transpose a [1, 0, 2] = Inr t"
    by (simp add: np_transpose_def assms t_def upt_3)
  have "item t [i, j, d] = item a [j, i, d]" if "i < N" "j < k" "d < D" for i j d
  proof -
    define p where "p = ravel [N, k, D] [i, j, d]"
    define P where "P = prod_list [N, k, D]"
    have all: "list_all2 (\<lambda>i n. i < n) [i, j, d] [N, k, D]" using that by simp
    have lt: "p < P" unfolding p_def P_def using all by (rule ravel_less)
    have un: "unravel [N, k, D] p = [i, j, d]"
      unfolding p_def using all by (rule unravel_ravel)
    have ti: "transpose_index [1, 0, 2] [i, j, d] = [j, i, d]"
      by (simp add: transpose_index_def upt_3)
    have "data t = map (\<lambda>q. data a ! ravel (shape a) (transpose_index [1, 0, 2] (unravel [N, k, D] q))) [0..<P]"
      by (simp only: t_def P_def ndarray.simps)
    then have "data t ! p = data a ! ravel (shape a) (transpose_index [1, 0, 2] (unravel [N, k, D] p))"
      using lt by simp
    then have "data t ! ravel [N, k, D] [i, j, d] = data a ! ravel (shape a) [j, i, d]"
      by (simp only: un ti) (simp only: p_def)
    then show ?thesis using that by (simp add: item_def assms t_def)
  qed
  with eq show ?thesis by (auto simp: t_def)
qed

lemma normal_unsized:
  "0 \<le> scale \<Longrightarrow>
   normal B g loc scale None =
     Inr (\<lparr>shape = shape loc, data = fst (cont_fill (\<lambda>a. random_normal B a scale) (data loc) g)\<rparr>,
          advance (standard_normal B) (length (data loc)) g)"
  by (simp add: normal_def case_prod_beta cont_fill_normal_state)

lemma broadcast_to_batch:
  assumes "shape loc = [N, D]"
  shows "\<exists>locs. broadcast_to loc [k, N, D] = Some locs \<and> length locs = k * N * D \<and>
           (\<forall>j<k. \<forall>i<N. \<forall>d<D.
              locs ! ravel [k, N, D] [j, i, d] = data loc ! ravel [N, D] [i, d])"
proof -
  define P where "P = prod_list [k, N, D]"
  define locs where "locs = map (\<lambda>p. data loc ! ravel [N, D] (broadcast_index [N, D] [k, N, D] (unravel [k, N, D] p))) [0..<P]"
  have eq: "broadcast_to loc [k, N, D] = Some locs"
    by (simp add: broadcast_to_def broadcastable_def assms locs_def P_def)
  have len: "length locs = k * N * D" by (simp add: locs_def P_def)
  have "locs ! ravel [k, N, D] [j, i, d] = data loc ! ravel [N, D] [i, d]"
    if "j < k" "i < N" "d < D" for j i d
  proof -
    define p where "p = ravel [k, N, D] [j, i, d]"
    have all: "list_all2 (\<lambda>i n. i < n) [j, i, d] [k, N, D]" using that by simp
    have lt: "p < P" unfolding p_def P_def using all by (rule ravel_less)
    have un: "unravel [k, N, D] p = [j, i, d]"
      unfolding p_def using all by (rule unravel_ravel)
    have bi: "broadcast_index [N, D] [k, N, D] [j, i, d] = [i, d]"
      using that by (auto simp add: broadcast_index_def)
    have "locs ! p = data loc ! ravel [N, D] (broadcast_index [N, D] [k, N, D] (unravel [k, N, D] p))"
      unfolding locs_def using lt by simp
    then show ?thesis by (simp only: un bi) (simp only: p_def)
  qed
  with eq len show ?thesis by blast
qed

lemma normal_sized:
  assumes "shape loc = [N, D]" and "0 \<le> scale"
  shows "\<exists>x. normal B g loc scale (Some [int k, int N, int D]) =
               Inr (x, advance (standard_normal B) (k * N * D) g) \<and>
             shape x = [k, N, D] \<and> length (data x) = k * N * D \<and>
             (\<forall>j<k. \<forall>i<N. \<forall>d<D.
                item x [j, i, d] =
                  Inr (data loc ! ravel [N, D] [i, d] +
                       scale * nth_normal B g (ravel [k, N, D] [j, i, d])))"
proof -
  obtain locs where bc: "broadcast_to loc [k, N, D] = Some locs"
    and len: "length locs = k * N * D"
    and el: "\<And>j i d. j < k \<Longrightarrow> i < N \<Longrightarrow> d < D \<Longrightarrow>
               locs ! ravel [k, N, D] [j, i, d] = data loc ! ravel [N, D] [i, d]"
    using broadcast_to_batch [OF assms(1), of k] by blast
  define x where "x = \<lparr>shape = [k, N, D], data = fst (cont_fill (\<lambda>a. random_normal B a scale) locs g)\<rparr>"
  have eq: "normal B g loc scale (Some [int k, int N, int D]) =
              Inr (x, advance (standard_normal B) (k * N * D) g)"
    using assms(2) bc len
    by (simp add: normal_def case_prod_beta cont_fill_normal_state x_def)
  have xlen: "length (data x) = k * N * D" by (simp add: x_def cont_fill_length len)
  have "item x [j, i, d] =
          Inr (data loc ! ravel [N, D] [i, d] + scale * nth_normal B g (ravel [k, N, D] [j, i, d]))"
    if "j < k" "i < N" "d < D" for j i d
  proof -
    define p where "p = ravel [k, N, D] [j, i, d]"
    have all: "list_all2 (\<lambda>i n. i < n) [j, i, d] [k, N, D]" using that by simp
    have "p < prod_list [k, N, D]" unfolding p_def using all by (rule ravel_less)
    then have lt: "p < length locs" by (simp add: len)
    have "data x ! p = locs ! p + scale * nth_normal B g p"
      unfolding x_def using cont_fill_normal_nth [OF lt] by simp
    also have "locs ! p = data loc ! ravel [N, D] [i, d]"
      unfolding p_def using that by (rule el)
    finally have "data x ! ravel [k, N, D] [j, i, d] =
        data loc ! ravel [N, D] [i, d] + scale * nth_normal B g (ravel [k, N, D] [j, i, d])"
      by (simp only: p_def)
    moreover have "item x [j, i, d] = Inr (data x ! ravel [k, N, D] [j, i, d])"
      using that by (simp add: item_def x_def)
    ultimately show ?thesis by simp
  qed
  with eq xlen show ?thesis by (auto simp: x_def)
qed

lemma rng_or_default_arrays [simp]: "arrays (snd (rng_or_default rng w)) = arrays w"
  by (cases rng) (simp_all add: rng_or_default_def default_rng_def)

lemma rng_or_default_next_ref [simp]: "next_ref (snd (rng_or_default rng w)) = next_ref w"
  by (cases rng) (simp_all add: rng_or_default_def default_rng_def)

lemma rng_or_default_fst:
  "fst (rng_or_default rng w) = (case rng of None \<Rightarrow> shd (entropy w) | Some g \<Rightarrow> g)"
  by (cases rng) (simp_all add: rng_or_default_def default_rng_def)

lemma rng_or_default_entropy:
  "entropy (snd (rng_or_default rng w)) = (case rng of None \<Rightarrow> stl (entropy w) | Some g \<Rightarrow> entropy w)"
  by (cases rng) (simp_all add: rng_or_default_def default_rng_def)


lemma uniform_eq:
  assumes "0 \<le> D" and "low \<le> high" and "round_double (high - low) \<le> max_double"
  shows "uniform B g low high D =
     Inr (\<lparr>shape = [nat D],
            data = fst (cont_fill (\<lambda>a. random_uniform B a (round_double (high - low)))
                          (replicate (nat D) low) g)\<rparr>,
          snd (cont_fill (\<lambda>a. random_uniform B a (round_double (high - low)))
                 (replicate (nat D) low) g))"
proof -
  have w: "0 \<le> round_double (high - low)" using assms(2) by (intro round_double_nonneg) simp
  then have "\<not> max_double < \<bar>round_double (high - low)\<bar>" using assms(3) by simp
  then show ?thesis
    using w assms(1) by (simp add: uniform_def case_prod_beta Let_def not_less [symmetric])
qed

lemma prior_eq:
  assumes "0 \<le> D" and "low \<le> high" and "round_double (high - low) \<le> max_double"
  shows "prior B D low high rng w =
     Inr (next_ref w,
          snd (cont_fill (\<lambda>a. random_uniform B a (round_double (high - low)))
                 (replicate (nat D) low) (fst (rng_or_default rng w))),
          snd (alloc \<lparr>shape = [nat D],
                 data = fst (cont_fill (\<lambda>a. random_uniform B a (round_double (high - low)))
                               (replicate (nat D) low) (fst (rng_or_default rng w)))\<rparr>
                 (snd (rng_or_default rng w))))"
  by (simp add: prior_def case_prod_beta uniform_eq [OF assms] alloc_def)

lemma max_double_ge_2: "2 \<le> max_double"
  by (simp add: max_double_def)

lemma alloc_arrays_new [simp]: "arrays (snd (alloc a w)) (next_ref w) = a"
  by (simp add: alloc_def)

lemma alloc_arrays_old: "q < next_ref w \<Longrightarrow> arrays (snd (alloc a w)) q = arrays w q"
  by (simp add: alloc_def)

lemma alloc_fst [simp]: "fst (alloc a w) = next_ref w"
  by (simp add: alloc_def)

lemma alloc_next_ref [simp]: "next_ref (snd (alloc a w)) = Suc (next_ref w)"
  by (simp add: alloc_def)

lemma alloc_entropy [simp]: "entropy (snd (alloc a w)) = entropy w"
  by (simp add: alloc_def)

lemma observation_model_single_eq:
  assumes "0 \<le> scale"
  shows "observation_model B params None scale rng w =
     Inr (next_ref w,
          advance (standard_normal B) (length (data (arrays w params))) (fst (rng_or_default rng w)),
          snd (alloc \<lparr>shape = shape (arrays w params),
                 data = fst (cont_fill (\<lambda>a. random_normal B a scale) (data (arrays w params))
                               (fst (rng_or_default rng w)))\<rparr>
                 (snd (rng_or_default rng w))))"
  by (simp add: observation_model_def case_prod_beta normal_unsized [OF assms])

lemma observation_model_replicated_eq:
  assumes "shape (arrays w params) = [N, D]" and "0 \<le> scale"
  shows "\<exists>x t.
     normal B (fst (rng_or_default rng w)) (arrays w params) scale (Some [int k, int N, int D]) =
       Inr (x, advance (standard_normal B) (k * N * D) (fst (rng_or_default rng w))) \<and>
     shape x = [k, N, D] \<and>
     np_transpose x [1, 0, 2] = Inr t \<and>
     observation_model B params (Some (int k)) scale rng w =
       Inr (Suc (next_ref w),
            advance (standard_normal B) (k * N * D) (fst (rng_or_default rng w)),
            snd (alloc t (snd (alloc x (snd (rng_or_default rng w))))))"
proof -
  let ?g = "fst (rng_or_default rng w)"
  let ?w1 = "snd (rng_or_default rng w)"
  obtain x where nx: "normal B ?g (arrays w params) scale (Some [int k, int N, int D]) =
       Inr (x, advance (standard_normal B) (k * N * D) ?g)" and sx: "shape x = [k, N, D]"
    using normal_sized [OF assms, of B ?g k] by blast
  obtain t where tx: "np_transpose x [1, 0, 2] = Inr t"
    using np_transpose_102 [OF sx] by blast
  have s0: "shape_at (arrays w params) 0 = Inr N"
    and s1: "shape_at (arrays w params) (Suc 0) = Inr D"
    by (simp_all add: shape_at_def assms)
  have a1: "arrays (snd (alloc x ?w1)) (next_ref w) = x" by (simp add: alloc_def)
  have tx1: "np_transpose x [Suc 0, 0, 2] = Inr t" using tx by simp
  have "observation_model B params (Some (int k)) scale rng w =
       Inr (Suc (next_ref w), advance (standard_normal B) (k * N * D) ?g,
            snd (alloc t (snd (alloc x ?w1))))"
    by (simp add: observation_model_def case_prod_beta s0 s1 nx a1 tx1)
  with nx sx tx show ?thesis by blast
qed

subsection \<open>Replicated observations\<close>

text \<open>
  Claim C1. For a batch \<open>params\<close> of shape \<open>(N, D)\<close>, a replicate count \<open>k > 0\<close> and a
  scale that NumPy accepts, \<^verbatim>\<open>observation_model(params, n_obs=k)\<close> returns an array \<open>r\<close> of
  shape \<open>(N, k, D)\<close>: the replicate axis is the second one. With \<open>x\<close> the array of shape
  \<open>(k, N, D)\<close> that \<^verbatim>\<open>rng.normal\<close> drew (\<open>x[j]\<close> is the \<open>j\<close>-th replicate of the whole
  batch), the entry \<open>r[i, j, d]\<close> is \<open>x[j, i, d]\<close>, component \<open>d\<close> of replicate \<open>j\<close> for the
  parameter row \<open>i\<close>, and it is \<open>params[i, d]\<close> plus \<open>scale\<close> times the standard normal
  variate number \<open>(j N + i) D + d\<close> of the generator.
\<close>

theorem observation_model_replicates:
  assumes "shape (arrays w params) = [N, D]" and "0 < k" and "0 \<le> scale"
  shows "\<exists>x r g' w'.
     observation_model B params (Some (int k)) scale rng w = Inr (r, g', w') \<and>
     shape (arrays w' r) = [N, k, D] \<and>
     normal B (fst (rng_or_default rng w)) (arrays w params) scale (Some [int k, int N, int D]) =
       Inr (arrays w' x, g') \<and>
     (\<forall>i<N. \<forall>j<k. \<forall>d<D.
        item (arrays w' r) [i, j, d] = item (arrays w' x) [j, i, d] \<and>
        item (arrays w' x) [j, i, d] =
          Inr (data (arrays w params) ! (i * D + d) +
               scale * nth_normal B (fst (rng_or_default rng w)) ((j * N + i) * D + d)))"
proof -
  let ?g = "fst (rng_or_default rng w)"
  let ?w1 = "snd (rng_or_default rng w)"
  obtain x t where nx: "normal B ?g (arrays w params) scale (Some [int k, int N, int D]) =
       Inr (x, advance (standard_normal B) (k * N * D) ?g)"
    and sx: "shape x = [k, N, D]"
    and tx: "np_transpose x [1, 0, 2] = Inr t"
    and om: "observation_model B params (Some (int k)) scale rng w =
       Inr (Suc (next_ref w), advance (standard_normal B) (k * N * D) ?g,
            snd (alloc t (snd (alloc x ?w1))))"
    using observation_model_replicated_eq [OF assms(1,3), of B rng k] by blast
  let ?w' = "snd (alloc t (snd (alloc x ?w1)))"
  have ar: "arrays ?w' (Suc (next_ref w)) = t" by (simp add: alloc_def)
  have ax: "arrays ?w' (next_ref w) = x" by (simp add: alloc_def)
  obtain x' where nx': "normal B ?g (arrays w params) scale (Some [int k, int N, int D]) =
       Inr (x', advance (standard_normal B) (k * N * D) ?g)"
    and el: "\<And>j i d. j < k \<Longrightarrow> i < N \<Longrightarrow> d < D \<Longrightarrow>
       item x' [j, i, d] = Inr (data (arrays w params) ! ravel [N, D] [i, d] +
                       scale * nth_normal B ?g (ravel [k, N, D] [j, i, d]))"
    using normal_sized [OF assms(1,3), of B ?g k] by blast
  from nx nx' have xx: "x' = x" by simp
  obtain t' where tx': "np_transpose x [1, 0, 2] = Inr t'" and st: "shape t' = [N, k, D]"
    and tr: "\<And>i j d. i < N \<Longrightarrow> j < k \<Longrightarrow> d < D \<Longrightarrow> item t' [i, j, d] = item x [j, i, d]"
    using np_transpose_102 [OF sx] by blast
  from tx tx' have tt: "t' = t" by simp
  have r1: "ravel [N, D] [i, d] = i * D + d" for i d by simp
  have r2: "ravel [k, N, D] [j, i, d] = (j * N + i) * D + d" for j i d
    by (simp add: algebra_simps)
  have "item t [i, j, d] = item x [j, i, d] \<and>
        item x [j, i, d] = Inr (data (arrays w params) ! (i * D + d) +
               scale * nth_normal B ?g ((j * N + i) * D + d))"
    if "i < N" "j < k" "d < D" for i j d
    using tr [OF that] el [OF that(2) that(1) that(3)] unfolding xx tt r1 r2 by simp
  then have F: "\<forall>i<N. \<forall>j<k. \<forall>d<D.
        item t [i, j, d] = item x [j, i, d] \<and>
        item x [j, i, d] = Inr (data (arrays w params) ! (i * D + d) +
               scale * nth_normal B ?g ((j * N + i) * D + d))"
    by blast
  let ?g' = "advance (standard_normal B) (k * N * D) ?g"
  have "observation_model B params (Some (int k)) scale rng w = Inr (Suc (next_ref w), ?g', ?w') \<and>
     shape (arrays ?w' (Suc (next_ref w))) = [N, k, D] \<and>
     normal B ?g (arrays w params) scale (Some [int k, int N, int D]) =
       Inr (arrays ?w' (next_ref w), ?g') \<and>
     (\<forall>i<N. \<forall>j<k. \<forall>d<D.
        item (arrays ?w' (Suc (next_ref w))) [i, j, d] = item (arrays ?w' (next_ref w)) [j, i, d] \<and>
        item (arrays ?w' (next_ref w)) [j, i, d] =
          Inr (data (arrays w params) ! (i * D + d) +
               scale * nth_normal B ?g ((j * N + i) * D + d)))"
    unfolding ar ax using om st [unfolded tt] nx F by blast
  then show ?thesis by blast
qed

lemma counter_advance: "advance (standard_normal counter_bitgen) n g = g + n"
  by (induction n arbitrary: g) (simp_all add: advance_0 advance_Suc counter_bitgen_def)

lemma counter_nth_normal: "nth_normal counter_bitgen g n = real (g + n)"
  by (simp add: nth_normal_def counter_advance) (simp add: counter_bitgen_def)

theorem observation_model_replicates_witness:
  "shape (arrays demo_world 0) = [2, 2] \<and> (0 :: nat) < 3 \<and> (0 :: real) \<le> 1 / 2 \<and>
   (\<exists>r g' w'.
      observation_model counter_bitgen 0 (Some 3) (1 / 2) (Some 0) demo_world = Inr (r, g', w') \<and>
      shape (arrays w' r) = [2, 3, 2] \<and> item (arrays w' r) [1, 2, 0] = Inr 35)"
proof -
  have h1: "shape (arrays demo_world 0) = [2, 2]" by (simp add: demo_world_def)
  have h2: "(0 :: nat) < 3" by simp
  have h3: "(0 :: real) \<le> 1 / 2" by simp
  have g0: "fst (rng_or_default (Some (0 :: nat)) demo_world) = 0"
    by (simp add: rng_or_default_def)
  have p: "data (arrays demo_world 0) ! (1 * 2 + 0) = 30"
    by (simp add: demo_world_def)
  from observation_model_replicates [OF h1 h2 h3, of counter_bitgen "Some 0"]
  obtain x r g' w' where
    om: "observation_model counter_bitgen 0 (Some (int 3)) (1 / 2) (Some 0) demo_world = Inr (r, g', w')"
    and sh: "shape (arrays w' r) = [2, 3, 2]"
    and el: "\<forall>i<2. \<forall>j<3. \<forall>d<2.
        item (arrays w' r) [i, j, d] = item (arrays w' x) [j, i, d] \<and>
        item (arrays w' x) [j, i, d] =
          Inr (data (arrays demo_world 0) ! (i * 2 + d) +
               1 / 2 * nth_normal counter_bitgen (fst (rng_or_default (Some 0) demo_world)) ((j * 2 + i) * 2 + d))"
    by blast
  from el have "item (arrays w' r) [1, 2, 0] =
      Inr (data (arrays demo_world 0) ! (1 * 2 + 0) +
           1 / 2 * nth_normal counter_bitgen (fst (rng_or_default (Some 0) demo_world)) ((2 * 2 + 1) * 2 + 0))"
    by simp
  then have "item (arrays w' r) [1, 2, 0] = Inr 35"
    unfolding g0 p counter_nth_normal by simp
  with om sh h1 show ?thesis by auto
qed


subsection \<open>A single observation per row\<close>

text \<open>
  Claim C2. For a batch \<open>params\<close> of shape \<open>(N, D)\<close> and no \<^verbatim>\<open>n_obs\<close>,
  \<^verbatim>\<open>observation_model(params)\<close> returns an array of exactly the shape of \<open>params\<close>, with as
  many elements: one observation per parameter row and no replicate axis. Element \<open>p\<close> of
  the output is element \<open>p\<close> of \<open>params\<close> plus \<open>scale\<close> times the \<open>p\<close>-th normal variate.
\<close>

theorem observation_model_single_shape:
  assumes "shape (arrays w params) = [N, D]" and "0 \<le> scale"
  shows "\<exists>r g' w'.
     observation_model B params None scale rng w = Inr (r, g', w') \<and>
     shape (arrays w' r) = [N, D] \<and>
     shape (arrays w' r) = shape (arrays w params) \<and>
     length (data (arrays w' r)) = length (data (arrays w params)) \<and>
     (\<forall>p<length (data (arrays w params)).
        data (arrays w' r) ! p =
          data (arrays w params) ! p + scale * nth_normal B (fst (rng_or_default rng w)) p)"
proof -
  let ?g = "fst (rng_or_default rng w)"
  let ?xs = "fst (cont_fill (\<lambda>a. random_normal B a scale) (data (arrays w params)) ?g)"
  let ?w' = "snd (alloc \<lparr>shape = shape (arrays w params), data = ?xs\<rparr> (snd (rng_or_default rng w)))"
  have ar: "arrays ?w' (next_ref w) = \<lparr>shape = shape (arrays w params), data = ?xs\<rparr>"
    by (simp add: alloc_def)
  have nth: "\<forall>p<length (data (arrays w params)).
          ?xs ! p = data (arrays w params) ! p + scale * nth_normal B ?g p"
    by (simp add: cont_fill_normal_nth)
  have len: "length ?xs = length (data (arrays w params))" by (rule cont_fill_length)
  let ?a = "\<lparr>shape = shape (arrays w params), data = ?xs\<rparr>"
  have "shape ?a = [N, D]" "shape ?a = shape (arrays w params)"
    "length (data ?a) = length (data (arrays w params))"
    "\<forall>p<length (data (arrays w params)).
        data ?a ! p = data (arrays w params) ! p + scale * nth_normal B ?g p"
    using assms(1) len nth by simp_all
  then have "observation_model B params None scale rng w =
       Inr (next_ref w, advance (standard_normal B) (length (data (arrays w params))) ?g, ?w') \<and>
     shape (arrays ?w' (next_ref w)) = [N, D] \<and>
     shape (arrays ?w' (next_ref w)) = shape (arrays w params) \<and>
     length (data (arrays ?w' (next_ref w))) = length (data (arrays w params)) \<and>
     (\<forall>p<length (data (arrays w params)).
        data (arrays ?w' (next_ref w)) ! p =
          data (arrays w params) ! p + scale * nth_normal B ?g p)"
    unfolding ar using observation_model_single_eq [OF assms(2), of B params rng w] by blast
  then show ?thesis by blast
qed

theorem observation_model_single_shape_witness:
  "shape (arrays demo_world 0) = [2, 2] \<and> (0 :: real) \<le> 1 / 2 \<and>
   (\<exists>r g' w'.
      observation_model counter_bitgen 0 None (1 / 2) (Some 0) demo_world = Inr (r, g', w') \<and>
      shape (arrays w' r) = [2, 2] \<and> length (data (arrays w' r)) = 4)"
proof -
  have h1: "shape (arrays demo_world 0) = [2, 2]" by (simp add: demo_world_def)
  have h2: "(0 :: real) \<le> 1 / 2" by simp
  have len: "length (data (arrays demo_world 0)) = 4" by (simp add: demo_world_def)
  from observation_model_single_shape [OF h1 h2, of counter_bitgen "Some 0"] h1 len
  show ?thesis by auto
qed

subsection \<open>Consumption of the generator\<close>

text \<open>
  Claim C9. On a batch of shape \<open>(N, D)\<close> (with its \<open>N D\<close> elements),
  \<^verbatim>\<open>observation_model\<close> leaves the supplied generator in the state reached after exactly
  \<open>N D\<close> draws of a normal variate when \<^verbatim>\<open>n_obs\<close> is absent, and after exactly \<open>N k D\<close> draws
  when \<^verbatim>\<open>n_obs = k\<close>.
\<close>

theorem observation_model_consumption:
  assumes "wf_array (arrays w params)" and "shape (arrays w params) = [N, D]" and "0 \<le> scale"
  shows "(\<exists>r w'. observation_model B params None scale (Some g) w =
                   Inr (r, advance (standard_normal B) (N * D) g, w')) \<and>
         (\<exists>r w'. observation_model B params (Some (int k)) scale (Some g) w =
                   Inr (r, advance (standard_normal B) (N * k * D) g, w'))"
proof -
  have len: "length (data (arrays w params)) = N * D"
    using assms(1,2) by (simp add: wf_array_def)
  have g: "fst (rng_or_default (Some g) w) = g" by (simp add: rng_or_default_def)
  have one: "\<exists>r w'. observation_model B params None scale (Some g) w =
                   Inr (r, advance (standard_normal B) (N * D) g, w')"
    unfolding observation_model_single_eq [OF assms(3)] len g by blast
  have nkd: "k * N * D = N * k * D" by simp
  have many: "\<exists>r w'. observation_model B params (Some (int k)) scale (Some g) w =
                   Inr (r, advance (standard_normal B) (N * k * D) g, w')"
    using observation_model_replicated_eq [OF assms(2,3), of B "Some g" k]
    unfolding g nkd by blast
  from one many show ?thesis by blast
qed

theorem observation_model_consumption_witness:
  "wf_array (arrays demo_world 0) \<and> shape (arrays demo_world 0) = [2, 2] \<and> (0 :: real) \<le> 1 / 2 \<and>
   (\<exists>r w'. observation_model counter_bitgen 0 None (1 / 2) (Some 5) demo_world = Inr (r, 9, w')) \<and>
   (\<exists>r w'. observation_model counter_bitgen 0 (Some 3) (1 / 2) (Some 5) demo_world = Inr (r, 17, w'))"
proof -
  have h1: "wf_array (arrays demo_world 0)" by (simp add: wf_array_def demo_world_def)
  have h2: "shape (arrays demo_world 0) = [2, 2]" by (simp add: demo_world_def)
  have h3: "(0 :: real) \<le> 1 / 2" by simp
  from observation_model_consumption [OF h1 h2 h3, of counter_bitgen 5 3] h1 h2
  show ?thesis by (simp add: counter_advance)
qed


lemma prior_array_result:
  "array_result (prior B D low high rng w) = uniform B (fst (rng_or_default rng w)) low high D"
  by (simp add: prior_def array_result_def case_prod_beta alloc_def split: sum.splits)

subsection \<open>The prior\<close>

text \<open>
  Claim C3, as the code has it. For every positive \<open>D\<close> and doubles
  \<open>lower_bound < upper_bound\<close> whose difference does not overflow,
  \<^verbatim>\<open>prior(D, lower_bound, upper_bound, rng)\<close> returns a vector of exactly \<open>D\<close> components, each
  between \<open>lower_bound\<close> and \<open>upper_bound\<close>, both included: the rounded sum
  \<open>low + (high - low) u\<close> can be \<open>upper_bound\<close> itself.
\<close>

theorem prior_length_and_closed_bounds:
  assumes "0 < D" and "lower_bound < upper_bound"
    and "is_double lower_bound" and "is_double upper_bound"
    and "round_double (upper_bound - lower_bound) \<le> max_double"
  shows "\<exists>r g' w'.
     prior B D lower_bound upper_bound rng w = Inr (r, g', w') \<and>
     shape (arrays w' r) = [nat D] \<and>
     length (data (arrays w' r)) = nat D \<and>
     (\<forall>x\<in>set (data (arrays w' r)). lower_bound \<le> x \<and> x \<le> upper_bound)"
proof -
  let ?g = "fst (rng_or_default rng w)"
  let ?fill = "cont_fill (\<lambda>a. random_uniform B a (round_double (upper_bound - lower_bound)))
                 (replicate (nat D) lower_bound) ?g"
  let ?a = "\<lparr>shape = [nat D], data = fst ?fill\<rparr>"
  let ?w' = "snd (alloc ?a (snd (rng_or_default rng w)))"
  have D: "0 \<le> D" and lh: "lower_bound \<le> upper_bound" using assms(1,2) by simp_all
  have lo: "round_double lower_bound = lower_bound"
    and hi: "round_double upper_bound = upper_bound"
    using assms(3,4) by (simp_all add: is_double_def)
  have eq: "prior B D lower_bound upper_bound rng w = Inr (next_ref w, snd ?fill, ?w')"
    by (rule prior_eq [OF D lh assms(5)])
  have ar: "arrays ?w' (next_ref w) = ?a" by (simp add: alloc_def)
  have len: "length (fst ?fill) = nat D" by (simp add: cont_fill_length)
  have bounds: "lower_bound \<le> x \<and> x \<le> upper_bound" if "x \<in> set (fst ?fill)" for x
    using cont_fill_uniform_bounds [OF lo hi assms(2) that] .
  have "prior B D lower_bound upper_bound rng w = Inr (next_ref w, snd ?fill, ?w') \<and>
     shape (arrays ?w' (next_ref w)) = [nat D] \<and>
     length (data (arrays ?w' (next_ref w))) = nat D \<and>
     (\<forall>x\<in>set (data (arrays ?w' (next_ref w))). lower_bound \<le> x \<and> x \<le> upper_bound)"
    unfolding ar using eq len bounds by simp
  then show ?thesis by (intro exI)
qed

theorem prior_length_and_closed_bounds_witness:
  "(0 :: int) < 3 \<and> (- 1 :: real) < 1 \<and> is_double (- 1) \<and> is_double 1 \<and>
   round_double (1 - (- 1)) \<le> max_double \<and>
   (\<exists>r g' w'.
      prior counter_bitgen 3 (- 1) 1 (Some 5) demo_world = Inr (r, g', w') \<and>
      shape (arrays w' r) = [3] \<and> length (data (arrays w' r)) = 3 \<and>
      (\<forall>x\<in>set (data (arrays w' r)). - 1 \<le> x \<and> x \<le> 1))"
proof -
  have h1: "(0 :: int) < 3" by simp
  have h2: "(- 1 :: real) < 1" by simp
  have h4: "is_double 1" using max_double_ge_2 by (simp add: is_double_def round_double_1)
  have h3: "is_double (- 1)"
    using max_double_ge_2 by (simp add: is_double_def round_double_uminus round_double_1)
  have h5: "round_double (1 - (- 1)) \<le> max_double"
    using max_double_ge_2 by (simp add: round_double_2)
  from prior_length_and_closed_bounds [OF h1 h2 h3 h4 h5, of counter_bitgen "Some 5" demo_world]
    h3 h4 h5
  show ?thesis by simp
qed

text \<open>
  Claim C3 as the specification states it, with \<open>upper_bound\<close> excluded, fails: with the
  bounds \<open>1\<close> and \<open>2\<close> and a generator whose next word has its upper 53 bits all set,
  \<open>u = 1 - 2\<^sup>-\<^sup>5\<^sup>3\<close> and the sum \<open>1 + u\<close> is a tie that is rounded to \<open>2\<close>: the component is
  \<open>upper_bound\<close>.
\<close>

theorem prior_upper_bound_counterexample:
  "(0 :: int) < 1 \<and> (1 :: real) < 2 \<and> is_double 1 \<and> is_double 2 \<and>
   array_result (prior counter_bitgen 1 1 2 (Some 9007199254740991) demo_world) =
     Inr (\<lparr>shape = [1], data = [2]\<rparr>, 9007199254740992) \<and>
   \<not> (2 :: real) < 2"
proof -
  have d1: "is_double 1" using max_double_ge_2 by (simp add: is_double_def round_double_1)
  have d2: "is_double 2" using max_double_ge_2 by (simp add: is_double_def round_double_2)
  have w: "unat (drop_bit 11 (push_bit 11 (word_of_nat 9007199254740991 :: 64 word))) =
             9007199254740991"
    by simp
  have u: "next_double counter_bitgen 9007199254740991 =
             (9007199254740991 / 2 ^ 53, 9007199254740992)"
    unfolding next_double_def by (simp add: counter_bitgen_def w)
  have ru: "random_uniform counter_bitgen 1 1 9007199254740991 = (2, 9007199254740992)"
    unfolding random_uniform_def u
    by (simp only: Let_def prod.case mult_1 round_double_below_1 round_double_below_2)
  have "uniform counter_bitgen 9007199254740991 1 2 1 =
          Inr (\<lparr>shape = [1], data = [2]\<rparr>, 9007199254740992)"
    unfolding uniform_def using max_double_ge_2 by (simp add: round_double_1 ru)
  then have "array_result (prior counter_bitgen 1 1 2 (Some 9007199254740991) demo_world) =
     Inr (\<lparr>shape = [1], data = [2]\<rparr>, 9007199254740992)"
    by (simp add: prior_array_result rng_or_default_def)
  with d1 d2 show ?thesis by simp
qed

text \<open>
  Claim C7. With \<open>D = 2\<close> and both bounds \<open>0\<close>, \<^verbatim>\<open>prior\<close> returns the vector \<open>[0, 0]\<close>, whatever
  the bit generator, the state of the supplied generator or the entropy of the system.
\<close>

theorem prior_degenerate_bounds:
  "\<exists>r g' w'. prior B 2 0 0 rng w = Inr (r, g', w') \<and>
              arrays w' r = \<lparr>shape = [2], data = [0, 0]\<rparr>"
proof -
  let ?g = "fst (rng_or_default rng w)"
  let ?fill = "cont_fill (\<lambda>a. random_uniform B a (round_double (0 - 0))) (replicate (nat 2) 0) ?g"
  let ?a = "\<lparr>shape = [nat 2], data = fst ?fill\<rparr>"
  let ?w' = "snd (alloc ?a (snd (rng_or_default rng w)))"
  have eq: "prior B 2 0 0 rng w = Inr (next_ref w, snd ?fill, ?w')"
    using max_double_ge_2 by (intro prior_eq) (simp_all add: round_double_0)
  have two: "replicate (nat 2) (0 :: real) = [0, 0]" by (simp add: numeral_2_eq_2)
  have "fst ?fill = [0, 0]"
    unfolding two
    by (simp add: cont_fill_Cons_fst random_uniform_fst round_double_0 del: cont_fill.simps(2))
  then have "?a = \<lparr>shape = [2], data = [0, 0]\<rparr>" by simp
  then have ar: "arrays ?w' (next_ref w) = \<lparr>shape = [2], data = [0, 0]\<rparr>"
    by (simp add: alloc_def)
  from eq ar show ?thesis by (intro exI conjI)
qed

theorem prior_degenerate_bounds_witness:
  "\<exists>r g' w'. prior counter_bitgen 2 0 0 None demo_world = Inr (r, g', w') \<and>
              arrays w' r = \<lparr>shape = [2], data = [0, 0]\<rparr>"
  by (rule prior_degenerate_bounds)

lemma simulator_eq:
  "\<exists>a b g1 g2 w1 w2.
     prior B 10 (- 1) 1 None w = Inr (next_ref w, g1, w1) \<and>
     arrays w1 (next_ref w) = a \<and> entropy w1 = stl (entropy w) \<and>
     shape a = [10] \<and> length (data a) = 10 \<and>
     observation_model B (next_ref w) None (1 / 10) None w1 = Inr (Suc (next_ref w), g2, w2) \<and>
     arrays w2 (next_ref w) = a \<and>
     arrays w2 (Suc (next_ref w)) = b \<and>
     shape b = [10] \<and> length (data b) = 10 \<and>
     simulator B w =
       Inr ([''parameters'' \<mapsto> next_ref w, ''observables'' \<mapsto> Suc (next_ref w)], w2)"
proof -
  define fill where "fill = cont_fill (\<lambda>a. random_uniform B a (round_double (1 - (- 1))))
                 (replicate (nat 10) (- 1)) (fst (rng_or_default None w))"
  define a where "a = \<lparr>shape = [nat 10], data = fst fill\<rparr>"
  define w1 where "w1 = snd (alloc a (snd (rng_or_default None w)))"
  have pr: "prior B 10 (- 1) 1 None w = Inr (next_ref w, snd fill, w1)"
    unfolding w1_def a_def fill_def
    using max_double_ge_2 by (intro prior_eq) (simp_all add: round_double_2)
  have a1: "arrays w1 (next_ref w) = a" by (simp add: w1_def alloc_def)
  have e1: "entropy w1 = stl (entropy w)" by (simp add: w1_def rng_or_default_entropy)
  have sa: "shape a = [10]" by (simp add: a_def)
  have la: "length (data a) = 10" by (simp add: a_def fill_def cont_fill_length)
  have n1: "next_ref w1 = Suc (next_ref w)" by (simp add: w1_def)
  define g2 where "g2 = advance (standard_normal B) (length (data (arrays w1 (next_ref w))))
                  (fst (rng_or_default None w1))"
  define b where "b = \<lparr>shape = shape (arrays w1 (next_ref w)),
              data = fst (cont_fill (\<lambda>a. random_normal B a (1 / 10)) (data (arrays w1 (next_ref w)))
                            (fst (rng_or_default None w1)))\<rparr>"
  define w2 where "w2 = snd (alloc b (snd (rng_or_default None w1)))"
  have "observation_model B (next_ref w) None (1 / 10) None w1 = Inr (next_ref w1, g2, w2)"
    unfolding g2_def w2_def b_def by (rule observation_model_single_eq) simp
  then have om: "observation_model B (next_ref w) None (1 / 10) None w1 = Inr (Suc (next_ref w), g2, w2)"
    by (simp only: n1)
  have a2: "arrays w2 (next_ref w) = a" by (simp add: w2_def alloc_def n1 a1)
  have b2: "arrays w2 (Suc (next_ref w)) = b" by (simp add: w2_def alloc_def n1)
  have sb: "shape b = [10]" by (simp add: b_def a1 sa)
  have lb: "length (data b) = 10" by (simp add: b_def a1 la cont_fill_length)
  have sim: "simulator B w =
       Inr ([''parameters'' \<mapsto> next_ref w, ''observables'' \<mapsto> Suc (next_ref w)], w2)"
    by (simp only: simulator_def pr om sum.case prod.case)
  from pr a1 e1 sa la om a2 b2 sb lb sim show ?thesis
    by (intro exI conjI)
qed

lemma observation_model_allocates:
  assumes "observation_model B params n_obs scale rng w = Inr (r, g', w')"
  shows "(\<forall>q<next_ref w. arrays w' q = arrays w q) \<and> next_ref w \<le> r \<and> r < next_ref w'"
proof (cases n_obs)
  case None
  with assms show ?thesis
    by (auto simp add: observation_model_def case_prod_beta alloc_def split: sum.splits)
next
  case (Some k)
  with assms show ?thesis
    by (auto simp add: observation_model_def case_prod_beta alloc_def split: sum.splits)
qed

subsection \<open>The simulator\<close>

text \<open>
  Claim C4. Every call of \<^verbatim>\<open>simulator()\<close> returns a dictionary with exactly the two fields
  \<^verbatim>\<open>parameters\<close> and \<^verbatim>\<open>observables\<close>; \<^verbatim>\<open>parameters\<close> is a vector of \<open>D = 10\<close> components (the
  default of \<^verbatim>\<open>prior\<close>) and \<^verbatim>\<open>observables\<close> is a vector of the same length.
\<close>

theorem simulator_record:
  "\<exists>d w' p x.
     simulator B w = Inr (d, w') \<and>
     dom d = {''parameters'', ''observables''} \<and>
     d ''parameters'' = Some p \<and> d ''observables'' = Some x \<and>
     shape (arrays w' p) = [10] \<and> length (data (arrays w' p)) = 10 \<and>
     shape (arrays w' x) = [10] \<and>
     length (data (arrays w' x)) = length (data (arrays w' p))"
proof -
  obtain a b w2 where a: "arrays w2 (next_ref w) = a" "shape a = [10]" "length (data a) = 10"
    and b: "arrays w2 (Suc (next_ref w)) = b" "shape b = [10]" "length (data b) = 10"
    and sim: "simulator B w =
       Inr ([''parameters'' \<mapsto> next_ref w, ''observables'' \<mapsto> Suc (next_ref w)], w2)"
    using simulator_eq [of B w] by blast
  let ?d = "[''parameters'' \<mapsto> next_ref w, ''observables'' \<mapsto> Suc (next_ref w)]"
  have dom: "dom ?d = {''parameters'', ''observables''}" by auto
  have p: "?d ''parameters'' = Some (next_ref w)" by simp
  have x: "?d ''observables'' = Some (Suc (next_ref w))" by simp
  have "simulator B w = Inr (?d, w2) \<and>
     dom ?d = {''parameters'', ''observables''} \<and>
     ?d ''parameters'' = Some (next_ref w) \<and> ?d ''observables'' = Some (Suc (next_ref w)) \<and>
     shape (arrays w2 (next_ref w)) = [10] \<and> length (data (arrays w2 (next_ref w))) = 10 \<and>
     shape (arrays w2 (Suc (next_ref w))) = [10] \<and>
     length (data (arrays w2 (Suc (next_ref w)))) = length (data (arrays w2 (next_ref w)))"
    using sim dom p x a b by simp
  then show ?thesis by (intro exI)
qed

theorem simulator_record_witness:
  "\<exists>d w' p x.
     simulator counter_bitgen demo_world = Inr (d, w') \<and>
     dom d = {''parameters'', ''observables''} \<and>
     d ''parameters'' = Some p \<and> d ''observables'' = Some x \<and>
     shape (arrays w' p) = [10] \<and> length (data (arrays w' p)) = 10 \<and>
     shape (arrays w' x) = [10] \<and>
     length (data (arrays w' x)) = length (data (arrays w' p))"
  by (rule simulator_record)

subsection \<open>The frame of the calls\<close>

text \<open>
  Claim C10. A call of \<^verbatim>\<open>observation_model\<close> that returns leaves the array behind its
  \<^verbatim>\<open>params\<close> argument as it was, as it leaves every array that existed before the call: its
  result is a new object. And the \<^verbatim>\<open>parameters\<close> field of the dictionary that
  \<^verbatim>\<open>simulator()\<close> returns is the reference that \<^verbatim>\<open>prior()\<close> returned, behind which the
  array is the one \<^verbatim>\<open>prior()\<close> produced, after the call of \<^verbatim>\<open>observation_model\<close> too.
\<close>

theorem observation_model_frame:
  assumes "observation_model B params n_obs scale rng w = Inr (r, g', w')"
    and "params < next_ref w"
  shows "arrays w' params = arrays w params \<and> r \<noteq> params \<and>
         (\<forall>q<next_ref w. arrays w' q = arrays w q \<and> q \<noteq> r) \<and>
         (\<exists>p g1 w1 d w2.
            prior B 10 (- 1) 1 None v = Inr (p, g1, w1) \<and>
            simulator B v = Inr (d, w2) \<and>
            d ''parameters'' = Some p \<and>
            arrays w2 p = arrays w1 p)"
proof -
  have fr: "\<forall>q<next_ref w. arrays w' q = arrays w q" and fresh: "next_ref w \<le> r"
    using observation_model_allocates [OF assms(1)] by simp_all
  have one: "arrays w' params = arrays w params" using fr assms(2) by simp
  have two: "r \<noteq> params" using fresh assms(2) by simp
  have three: "\<forall>q<next_ref w. arrays w' q = arrays w q \<and> q \<noteq> r" using fr fresh by auto
  obtain a g1 w1 w2 where pr: "prior B 10 (- 1) 1 None v = Inr (next_ref v, g1, w1)"
    and a1: "arrays w1 (next_ref v) = a" and a2: "arrays w2 (next_ref v) = a"
    and sim: "simulator B v =
       Inr ([''parameters'' \<mapsto> next_ref v, ''observables'' \<mapsto> Suc (next_ref v)], w2)"
    using simulator_eq [of B v] by blast
  let ?d = "[''parameters'' \<mapsto> next_ref v, ''observables'' \<mapsto> Suc (next_ref v)]"
  have "prior B 10 (- 1) 1 None v = Inr (next_ref v, g1, w1) \<and>
        simulator B v = Inr (?d, w2) \<and> ?d ''parameters'' = Some (next_ref v) \<and>
        arrays w2 (next_ref v) = arrays w1 (next_ref v)"
    using pr sim a1 a2 by simp
  then have four: "\<exists>p g1 w1 d w2.
            prior B 10 (- 1) 1 None v = Inr (p, g1, w1) \<and>
            simulator B v = Inr (d, w2) \<and>
            d ''parameters'' = Some p \<and>
            arrays w2 p = arrays w1 p"
    by (intro exI)
  from one two three four show ?thesis by (intro conjI)
qed

theorem observation_model_frame_witness:
  "\<exists>r g' w'.
     observation_model counter_bitgen 0 (Some 3) (1 / 2) (Some 0) demo_world = Inr (r, g', w') \<and>
     (0 :: nat) < next_ref demo_world \<and>
     arrays w' 0 = arrays demo_world 0 \<and> r \<noteq> 0 \<and>
     arrays w' 1 = arrays demo_world 1"
proof -
  have h1: "shape (arrays demo_world 0) = [2, 2]" by (simp add: demo_world_def)
  have h2: "(0 :: real) \<le> 1 / 2" by simp
  obtain r g' w' where om:
    "observation_model counter_bitgen 0 (Some (int 3)) (1 / 2) (Some 0) demo_world = Inr (r, g', w')"
    using observation_model_replicated_eq [OF h1 h2, of counter_bitgen "Some 0" 3] by blast
  have p: "(0 :: nat) < next_ref demo_world" by (simp add: demo_world_def)
  have q: "(1 :: nat) < next_ref demo_world" by (simp add: demo_world_def)
  from observation_model_frame [OF om p, of demo_world] q
  have "arrays w' 0 = arrays demo_world 0 \<and> r \<noteq> 0 \<and> arrays w' 1 = arrays demo_world 1"
    by simp
  with om p show ?thesis by auto
qed


lemma cont_fill_zero_scale: "fst (cont_fill (\<lambda>a. random_normal B a 0) ps g) = ps"
  by (induction ps arbitrary: g)
    (simp_all add: cont_fill_Cons_fst random_normal_fst del: cont_fill.simps(2))

lemma upt_6: "[0..<6] = [0, 1, 2, 3, 4, 5 :: nat]"
  by code_simp

lemma broadcast_to_1x2:
  "broadcast_to \<lparr>shape = [1, 2], data = [a, b]\<rparr> [3, 1, 2] = Some [a, b, a, b, a, b]"
  by (simp add: broadcast_to_def broadcastable_def broadcast_index_def upt_6)

lemma np_transpose_3x1x2:
  "np_transpose \<lparr>shape = [3, 1, 2], data = [a, b, c, d, e, f]\<rparr> [1, 0, 2] =
     Inr \<lparr>shape = [1, 3, 2], data = [a, b, c, d, e, f]\<rparr>"
  by (simp add: np_transpose_def transpose_index_def upt_3 upt_6)

subsection \<open>The zero-variance case\<close>

text \<open>
  Claim C8. On the \<open>1 \<times> 2\<close> batch \<open>[[1, 2]]\<close> with \<^verbatim>\<open>n_obs = 3\<close> and \<^verbatim>\<open>scale = 0\<close>,
  \<^verbatim>\<open>observation_model\<close> returns the array \<open>[[[1, 2], [1, 2], [1, 2]]]\<close> of shape \<open>(1, 3, 2)\<close>,
  whatever the bit generator, the state of the supplied generator or the entropy of the
  system.
\<close>

theorem observation_model_zero_scale:
  assumes "arrays w params = \<lparr>shape = [1, 2], data = [1, 2]\<rparr>"
  shows "\<exists>r g' w'.
     observation_model B params (Some 3) 0 rng w = Inr (r, g', w') \<and>
     arrays w' r = \<lparr>shape = [1, 3, 2], data = [1, 2, 1, 2, 1, 2]\<rparr>"
proof -
  let ?g = "fst (rng_or_default rng w)"
  have sh: "shape (arrays w params) = [1, 2]" by (simp add: assms)
  have sc: "(0 :: real) \<le> 0" by simp
  obtain x t where nx: "normal B ?g (arrays w params) 0 (Some [int 3, int 1, int 2]) =
       Inr (x, advance (standard_normal B) (3 * 1 * 2) ?g)"
    and tx: "np_transpose x [1, 0, 2] = Inr t"
    and om: "observation_model B params (Some (int 3)) 0 rng w =
       Inr (Suc (next_ref w), advance (standard_normal B) (3 * 1 * 2) ?g,
            snd (alloc t (snd (alloc x (snd (rng_or_default rng w))))))"
    using observation_model_replicated_eq [OF sh sc, of B rng 3] by blast
  have "normal B ?g (arrays w params) 0 (Some [int 3, int 1, int 2]) =
          Inr (\<lparr>shape = [3, 1, 2], data = [1, 2, 1, 2, 1, 2]\<rparr>,
               snd (cont_fill (\<lambda>a. random_normal B a 0) [1, 2, 1, 2, 1, 2] ?g))"
    unfolding assms
    by (simp add: normal_def broadcast_to_1x2 [unfolded One_nat_def] case_prod_beta
        cont_fill_zero_scale del: cont_fill.simps(2))
  with nx have x: "x = \<lparr>shape = [3, 1, 2], data = [1, 2, 1, 2, 1, 2]\<rparr>" by simp
  from tx have t: "t = \<lparr>shape = [1, 3, 2], data = [1, 2, 1, 2, 1, 2]\<rparr>"
    unfolding x np_transpose_3x1x2 by simp
  let ?w' = "snd (alloc t (snd (alloc x (snd (rng_or_default rng w)))))"
  have ar: "arrays ?w' (Suc (next_ref w)) = t" by (simp add: alloc_def)
  have om3: "observation_model B params (Some 3) 0 rng w =
       Inr (Suc (next_ref w), advance (standard_normal B) (3 * 1 * 2) ?g, ?w')"
    using om by simp
  have "observation_model B params (Some 3) 0 rng w =
       Inr (Suc (next_ref w), advance (standard_normal B) (3 * 1 * 2) ?g, ?w') \<and>
     arrays ?w' (Suc (next_ref w)) = \<lparr>shape = [1, 3, 2], data = [1, 2, 1, 2, 1, 2]\<rparr>"
    using om3 ar t by simp
  then show ?thesis by (intro exI)
qed

theorem observation_model_zero_scale_witness:
  "arrays demo_world 2 = \<lparr>shape = [1, 2], data = [1, 2]\<rparr> \<and>
   (\<exists>r g' w'.
      observation_model counter_bitgen 2 (Some 3) 0 None demo_world = Inr (r, g', w') \<and>
      arrays w' r = \<lparr>shape = [1, 3, 2], data = [1, 2, 1, 2, 1, 2]\<rparr>)"
proof -
  have h: "arrays demo_world 2 = \<lparr>shape = [1, 2], data = [1, 2]\<rparr>"
    by (simp add: demo_world_def)
  from observation_model_zero_scale [OF h, of counter_bitgen None] h show ?thesis
    by (intro conjI)
qed


lemma observation_model_vector_replicated:
  assumes "shape (arrays w params) = [D]"
  shows "observation_model B params (Some k) scale rng w = Inl IndexError"
proof -
  have s0: "shape_at (arrays w params) 0 = Inr D"
    and s1: "shape_at (arrays w params) (Suc 0) = Inl IndexError"
    by (simp_all add: shape_at_def assms)
  show ?thesis
    by (simp add: observation_model_def case_prod_beta s0 s1)
qed

subsection \<open>The accepted shapes of the parameters\<close>

text \<open>
  Claim C5, as the code has it. \<^verbatim>\<open>observation_model\<close> accepts a single vector of length
  \<open>D\<close> when \<^verbatim>\<open>n_obs\<close> is absent, returning a vector of length \<open>D\<close>, and a batch of shape
  \<open>(N, D)\<close> with or without \<^verbatim>\<open>n_obs\<close>, returning shape \<open>(N, D)\<close> or \<open>(N, k, D)\<close>. On a single
  vector with \<^verbatim>\<open>n_obs = k\<close> it raises IndexError: \<^verbatim>\<open>params.shape[1]\<close> does not exist.
\<close>

theorem observation_model_accepted_shapes:
  assumes "0 \<le> scale"
  shows "(shape (arrays w params) = [D] \<longrightarrow>
            (\<exists>r g' w'. observation_model B params None scale rng w = Inr (r, g', w') \<and>
                        shape (arrays w' r) = [D])) \<and>
         (shape (arrays w params) = [N, D] \<longrightarrow>
            (\<exists>r g' w'. observation_model B params None scale rng w = Inr (r, g', w') \<and>
                        shape (arrays w' r) = [N, D])) \<and>
         (shape (arrays w params) = [N, D] \<longrightarrow>
            (\<exists>r g' w'. observation_model B params (Some (int k)) scale rng w = Inr (r, g', w') \<and>
                        shape (arrays w' r) = [N, k, D])) \<and>
         (shape (arrays w params) = [D] \<longrightarrow>
            observation_model B params (Some n_obs) scale rng w = Inl IndexError)"
proof -
  have single: "\<exists>r g' w'. observation_model B params None scale rng w = Inr (r, g', w') \<and>
                        shape (arrays w' r) = s"
    if "shape (arrays w params) = s" for s
  proof -
    let ?a = "\<lparr>shape = shape (arrays w params),
                data = fst (cont_fill (\<lambda>a. random_normal B a scale) (data (arrays w params))
                              (fst (rng_or_default rng w)))\<rparr>"
    let ?w' = "snd (alloc ?a (snd (rng_or_default rng w)))"
    have ar: "arrays ?w' (next_ref w) = ?a" by (simp add: alloc_def)
    have "shape (arrays ?w' (next_ref w)) = s" unfolding ar using that by simp
    with observation_model_single_eq [OF assms, of B params rng w] show ?thesis
      by (intro exI conjI)
  qed
  have many: "\<exists>r g' w'. observation_model B params (Some (int k)) scale rng w = Inr (r, g', w') \<and>
                        shape (arrays w' r) = [N, k, D]"
    if sh: "shape (arrays w params) = [N, D]"
  proof -
    let ?g = "fst (rng_or_default rng w)"
    obtain x t where sx: "shape x = [k, N, D]" and tx: "np_transpose x [1, 0, 2] = Inr t"
      and om: "observation_model B params (Some (int k)) scale rng w =
         Inr (Suc (next_ref w), advance (standard_normal B) (k * N * D) ?g,
              snd (alloc t (snd (alloc x (snd (rng_or_default rng w))))))"
      using observation_model_replicated_eq [OF sh assms, of B rng k] by blast
    obtain t' where tx': "np_transpose x [1, 0, 2] = Inr t'" and st: "shape t' = [N, k, D]"
      using np_transpose_102 [OF sx] by blast
    from tx tx' st have st: "shape t = [N, k, D]" by simp
    let ?w' = "snd (alloc t (snd (alloc x (snd (rng_or_default rng w)))))"
    have ar: "arrays ?w' (Suc (next_ref w)) = t" by (simp add: alloc_def)
    have "shape (arrays ?w' (Suc (next_ref w))) = [N, k, D]" unfolding ar by (rule st)
    with om show ?thesis by (intro exI conjI)
  qed
  from single [of "[D]"] single [of "[N, D]"] many
    observation_model_vector_replicated [of w params D B n_obs scale rng]
  show ?thesis by (intro conjI impI)
qed

theorem observation_model_accepted_shapes_witness:
  "(0 :: real) \<le> 1 / 10 \<and> shape (arrays demo_world 1) = [2] \<and> shape (arrays demo_world 0) = [2, 2] \<and>
   (\<exists>r g' w'. observation_model counter_bitgen 1 None (1 / 10) None demo_world = Inr (r, g', w') \<and>
               shape (arrays w' r) = [2]) \<and>
   (\<exists>r g' w'. observation_model counter_bitgen 0 (Some 3) (1 / 10) None demo_world = Inr (r, g', w') \<and>
               shape (arrays w' r) = [2, 3, 2]) \<and>
   observation_model counter_bitgen 1 (Some 3) (1 / 10) None demo_world = Inl IndexError"
proof -
  have h: "(0 :: real) \<le> 1 / 10" by simp
  have s1: "shape (arrays demo_world 1) = [2]" and s0: "shape (arrays demo_world 0) = [2, 2]"
    by (simp_all add: demo_world_def)
  from observation_model_accepted_shapes [OF h, of demo_world 1 2 counter_bitgen None 0 0 3] s1
  have a: "\<exists>r g' w'. observation_model counter_bitgen 1 None (1 / 10) None demo_world = Inr (r, g', w') \<and>
               shape (arrays w' r) = [2]"
    and c: "observation_model counter_bitgen 1 (Some 3) (1 / 10) None demo_world = Inl IndexError"
    by simp_all
  from observation_model_accepted_shapes [OF h, of demo_world 0 2 counter_bitgen None 2 3 3] s0
  have b: "\<exists>r g' w'. observation_model counter_bitgen 0 (Some 3) (1 / 10) None demo_world = Inr (r, g', w') \<and>
               shape (arrays w' r) = [2, 3, 2]"
    by simp
  from h s1 s0 a b c show ?thesis by (intro conjI)
qed

text \<open>
  Claim C5 as the specification states it fails: on the vector \<open>[1, 2]\<close> with
  \<^verbatim>\<open>n_obs = 3\<close> the call raises IndexError.
\<close>

theorem observation_model_vector_replicated_counterexample:
  "arrays demo_world 1 = \<lparr>shape = [2], data = [1, 2]\<rparr> \<and>
   observation_model counter_bitgen 1 (Some 3) (1 / 10) None demo_world = Inl IndexError \<and>
   observation_model counter_bitgen 1 (Some 3) (1 / 10) (Some 0) demo_world = Inl IndexError"
  by (simp add: observation_model_def rng_or_default_def default_rng_def shape_at_def
      demo_world_def case_prod_beta)


lemma observation_model_array_result:
  assumes "arrays w p = arrays v q"
    and "fst (rng_or_default rng w) = fst (rng_or_default rng' v)"
  shows "array_result (observation_model B p n_obs scale rng w) =
         array_result (observation_model B q n_obs scale rng' v)"
proof (cases n_obs)
  case None
  show ?thesis
    unfolding None
    by (simp add: observation_model_def array_result_def case_prod_beta alloc_def assms
        split: sum.splits)
next
  case (Some k)
  show ?thesis
    unfolding Some
    by (simp add: observation_model_def array_result_def case_prod_beta alloc_def assms
        split: sum.splits)
qed

lemma simulator_record_result:
  "\<exists>a b g1 g2 w1.
     array_result (prior B 10 (- 1) 1 None w) = Inr (a, g1) \<and>
     arrays w1 (next_ref w) = a \<and> entropy w1 = stl (entropy w) \<and>
     array_result (observation_model B (next_ref w) None (1 / 10) None w1) = Inr (b, g2) \<and>
     record_result (simulator B w) = Inr [''parameters'' \<mapsto> a, ''observables'' \<mapsto> b]"
proof -
  obtain a b g1 g2 w1 w2 where pr: "prior B 10 (- 1) 1 None w = Inr (next_ref w, g1, w1)"
    and a1: "arrays w1 (next_ref w) = a" and e1: "entropy w1 = stl (entropy w)"
    and om: "observation_model B (next_ref w) None (1 / 10) None w1 = Inr (Suc (next_ref w), g2, w2)"
    and a2: "arrays w2 (next_ref w) = a" and b2: "arrays w2 (Suc (next_ref w)) = b"
    and sim: "simulator B w =
       Inr ([''parameters'' \<mapsto> next_ref w, ''observables'' \<mapsto> Suc (next_ref w)], w2)"
    using simulator_eq [of B w] by blast
  have r1: "array_result (prior B 10 (- 1) 1 None w) = Inr (a, g1)"
    by (simp add: array_result_def pr a1)
  have r2: "array_result (observation_model B (next_ref w) None (1 / 10) None w1) = Inr (b, g2)"
    by (simp add: array_result_def om b2)
  have "(\<lambda>k. map_option (arrays w2)
           ([''parameters'' \<mapsto> next_ref w, ''observables'' \<mapsto> Suc (next_ref w)] k)) =
        [''parameters'' \<mapsto> a, ''observables'' \<mapsto> b]"
    by (rule ext) (simp add: a2 b2)
  then have r3: "record_result (simulator B w) =
      Inr [''parameters'' \<mapsto> a, ''observables'' \<mapsto> b]"
    by (simp add: record_result_def sim)
  from r1 a1 e1 r2 r3 show ?thesis by (intro exI conjI)
qed

subsection \<open>Determinism\<close>

text \<open>
  Claim C6. Two runs, in any two worlds \<open>w\<close> and \<open>v\<close> (other stores, other free
  references, other entropy), give the same output, array and final generator state,
  when the arguments and the state of the random source are the same:
  \<^item> \<^verbatim>\<open>prior\<close> with a supplied generator in state \<open>g\<close>: nothing of the world is consulted;
  \<^item> \<^verbatim>\<open>observation_model\<close> with a supplied generator in state \<open>g\<close> and the same array of
    parameters: nothing else of the world is consulted;
  \<^item> \<^verbatim>\<open>prior\<close> and \<^verbatim>\<open>observation_model\<close> without a generator, when the generator that
    \<^verbatim>\<open>default_rng()\<close> creates is in the same state in both runs;
  \<^item> \<^verbatim>\<open>simulator\<close>, whose random sources are the two generators that \<^verbatim>\<open>default_rng()\<close>
    creates, one in \<^verbatim>\<open>prior\<close> and one in \<^verbatim>\<open>observation_model\<close>, when each is in the same
    state in both runs.
\<close>

theorem two_run_determinism:
  "array_result (prior B D lower_bound upper_bound (Some g) w) =
     array_result (prior B D lower_bound upper_bound (Some g) v) \<and>
   (arrays w p = arrays v q \<longrightarrow>
      array_result (observation_model B p n_obs scale (Some g) w) =
        array_result (observation_model B q n_obs scale (Some g) v)) \<and>
   (shd (entropy w) = shd (entropy v) \<longrightarrow>
      array_result (prior B D lower_bound upper_bound None w) =
        array_result (prior B D lower_bound upper_bound None v)) \<and>
   (shd (entropy w) = shd (entropy v) \<and> arrays w p = arrays v q \<longrightarrow>
      array_result (observation_model B p n_obs scale None w) =
        array_result (observation_model B q n_obs scale None v)) \<and>
   (shd (entropy w) = shd (entropy v) \<and> shd (stl (entropy w)) = shd (stl (entropy v)) \<longrightarrow>
      record_result (simulator B w) = record_result (simulator B v))"
proof -
  have some: "fst (rng_or_default (Some g) w) = fst (rng_or_default (Some g) v)"
    by (simp add: rng_or_default_fst)
  have none: "fst (rng_or_default None w') = fst (rng_or_default None v')"
    if "shd (entropy w') = shd (entropy v')" for w' v' :: "'a world"
    using that by (simp add: rng_or_default_fst)
  have one: "array_result (prior B D lower_bound upper_bound (Some g) w) =
     array_result (prior B D lower_bound upper_bound (Some g) v)"
    by (simp only: prior_array_result some)
  have two: "array_result (observation_model B p n_obs scale (Some g) w) =
        array_result (observation_model B q n_obs scale (Some g) v)"
    if "arrays w p = arrays v q"
    using that some by (rule observation_model_array_result)
  have three: "array_result (prior B D' lo hi None w') = array_result (prior B D' lo hi None v')"
    if "shd (entropy w') = shd (entropy v')" for w' v' :: "'a world" and D' lo hi
    by (simp only: prior_array_result none [OF that])
  have four: "array_result (observation_model B p' n_obs' scale' None w') =
        array_result (observation_model B q' n_obs' scale' None v')"
    if "shd (entropy w') = shd (entropy v')" "arrays w' p' = arrays v' q'"
    for w' v' :: "'a world" and p' q' n_obs' scale'
    using that(2) none [OF that(1)] by (rule observation_model_array_result)
  have five: "record_result (simulator B w) = record_result (simulator B v)"
    if e1: "shd (entropy w) = shd (entropy v)"
      and e2: "shd (stl (entropy w)) = shd (stl (entropy v))"
  proof -
    obtain a b g1 g2 w1 where
      r1: "array_result (prior B 10 (- 1) 1 None w) = Inr (a, g1)"
      and a1: "arrays w1 (next_ref w) = a" and s1: "entropy w1 = stl (entropy w)"
      and r2: "array_result (observation_model B (next_ref w) None (1 / 10) None w1) = Inr (b, g2)"
      and r3: "record_result (simulator B w) = Inr [''parameters'' \<mapsto> a, ''observables'' \<mapsto> b]"
      using simulator_record_result [of B w] by blast
    obtain a' b' g1' g2' v1 where
      r1': "array_result (prior B 10 (- 1) 1 None v) = Inr (a', g1')"
      and a1': "arrays v1 (next_ref v) = a'" and s1': "entropy v1 = stl (entropy v)"
      and r2': "array_result (observation_model B (next_ref v) None (1 / 10) None v1) = Inr (b', g2')"
      and r3': "record_result (simulator B v) = Inr [''parameters'' \<mapsto> a', ''observables'' \<mapsto> b']"
      using simulator_record_result [of B v] by blast
    from three [OF e1, of 10 "- 1" 1] r1 r1' have aa: "a = a'" by simp
    have "shd (entropy w1) = shd (entropy v1)" by (simp only: s1 s1' e2)
    moreover have "arrays w1 (next_ref w) = arrays v1 (next_ref v)" by (simp only: a1 a1' aa)
    ultimately have "array_result (observation_model B (next_ref w) None (1 / 10) None w1) =
        array_result (observation_model B (next_ref v) None (1 / 10) None v1)"
      by (rule four)
    with r2 r2' have bb: "b = b'" by simp
    show ?thesis by (simp only: r3 r3' aa bb)
  qed
  from one two three [of w v D lower_bound upper_bound] four [of w v p q n_obs scale] five
  show ?thesis by blast
qed

theorem two_run_determinism_witness:
  "arrays demo_world 0 = arrays other_world 4 \<and>
   shd (entropy demo_world) = shd (entropy other_world) \<and>
   shd (stl (entropy demo_world)) = shd (stl (entropy other_world)) \<and>
   shd (stl (stl (entropy demo_world))) \<noteq> shd (stl (stl (entropy other_world))) \<and>
   next_ref demo_world \<noteq> next_ref other_world \<and>
   array_result (prior counter_bitgen 3 (- 1) 1 (Some 5) demo_world) =
     array_result (prior counter_bitgen 3 (- 1) 1 (Some 5) other_world) \<and>
   array_result (observation_model counter_bitgen 0 (Some 3) (1 / 2) (Some 5) demo_world) =
     array_result (observation_model counter_bitgen 4 (Some 3) (1 / 2) (Some 5) other_world) \<and>
   array_result (prior counter_bitgen 3 (- 1) 1 None demo_world) =
     array_result (prior counter_bitgen 3 (- 1) 1 None other_world) \<and>
   array_result (observation_model counter_bitgen 0 (Some 3) (1 / 2) None demo_world) =
     array_result (observation_model counter_bitgen 4 (Some 3) (1 / 2) None other_world) \<and>
   record_result (simulator counter_bitgen demo_world) =
     record_result (simulator counter_bitgen other_world)"
proof -
  have h1: "arrays demo_world 0 = arrays other_world 4"
    by (simp add: demo_world_def other_world_def)
  have h2: "shd (entropy demo_world) = shd (entropy other_world)"
    by (simp add: demo_world_def other_world_def)
  have h3: "shd (stl (entropy demo_world)) = shd (stl (entropy other_world))"
    by (simp add: demo_world_def other_world_def)
  have d1: "shd (stl (stl (entropy demo_world))) \<noteq> shd (stl (stl (entropy other_world)))"
    by (simp add: demo_world_def other_world_def)
  have d2: "next_ref demo_world \<noteq> next_ref other_world"
    by (simp add: demo_world_def other_world_def)
  from two_run_determinism [of counter_bitgen 3 "- 1" 1 5 demo_world other_world 0 4 "Some 3" "1 / 2"]
    h1 h2 h3 d1 d2
  show ?thesis by blast
qed

end
